theory Spec2Isabelle
  imports Main
begin

section \<open>Python values and strings\<close>

text \<open>
  The tracking service of \<^verbatim>\<open>main.py\<close> keeps one spreadsheet per year and
  answers JSON requests. A spreadsheet cell holds \<^verbatim>\<open>None\<close>, a boolean, an
  integer or a string; a JSON payload value is \<^verbatim>\<open>null\<close>, a boolean, a string,
  or a nested array or object (which a cell refuses). Numbers in a payload
  and floating point numbers in a cell are left out of the model. A
  character stands for a code point; the statements about what a sheet
  stores are made for ASCII strings.
\<close>

datatype cell = CNone | CBool bool | CInt int | CStr string

datatype jvalue = JNull | JBool bool | JStr string | JNested

datatype error = ValueError | KeyError | TypeError | OverflowError | IllegalCharacterError

text \<open>Decimal digits, as \<^verbatim>\<open>str(n)\<close> and the f-strings of the source print them.\<close>

definition digit_char :: "nat \<Rightarrow> char" where
  "digit_char n = char_of (48 + n)"

fun str_nat :: "nat \<Rightarrow> string" where
  "str_nat n = (if n < 10 then [digit_char n] else str_nat (n div 10) @ [digit_char (n mod 10)])"

declare str_nat.simps [simp del]

definition str_int :: "int \<Rightarrow> string" where
  "str_int i = (if i < 0 then CHR ''-'' # str_nat (nat (- i)) else str_nat (nat i))"

text \<open>\<^verbatim>\<open>str(value)\<close> of a cell value.\<close>

fun py_str :: "cell \<Rightarrow> string" where
  "py_str CNone = ''None''"
| "py_str (CBool b) = (if b then ''True'' else ''False'')"
| "py_str (CInt i) = str_int i"
| "py_str (CStr s) = s"

text \<open>Python's truth value of a cell value read back from the service.\<close>

fun truthy :: "cell \<Rightarrow> bool" where
  "truthy CNone = False"
| "truthy (CBool b) = b"
| "truthy (CInt i) = (i \<noteq> 0)"
| "truthy (CStr s) = (s \<noteq> [])"

text \<open>
  \<^verbatim>\<open>year.isdigit()\<close> on ASCII strings: a non-empty string of the digits 0 to
  9. Python also counts digits of other scripts; the statements below that
  depend on a string not being made of digits are made for ASCII strings.
\<close>

definition ascii :: "string \<Rightarrow> bool" where
  "ascii s = list_all (\<lambda>c. (of_char c :: nat) < 128) s"

definition is_digit :: "char \<Rightarrow> bool" where
  "is_digit c = (48 \<le> (of_char c :: nat) \<and> (of_char c :: nat) \<le> 57)"

definition isdigit :: "string \<Rightarrow> bool" where
  "isdigit s = (s \<noteq> [] \<and> list_all is_digit s)"

text \<open>
  \<^verbatim>\<open>dict(pairs)\<close>: the pairs are inserted in order, a later pair replaces an
  earlier one with the same key.
\<close>

definition dict_of :: "('k \<times> 'v) list \<Rightarrow> ('k \<rightharpoonup> 'v)" where
  "dict_of xs = fold (\<lambda>(k, v) m. m(k \<mapsto> v)) xs Map.empty"

section \<open>The worksheet\<close>

text \<open>
  A tracking sheet is the grid that \<^verbatim>\<open>ws[1]\<close> and
  \<^verbatim>\<open>ws.iter_rows(min_row=2, values_only=True)\<close> show: row 1, the header, and
  rows 2 to \<^verbatim>\<open>max_row\<close>, each a tuple with one value per column of the sheet.
  Every request loads the workbook and every write is followed by
  \<^verbatim>\<open>wb.save\<close>, so the grid of the model is the grid as the next request
  reads it: what saving and loading change in a string is part of what a
  cell does with the string, below.
\<close>

record worksheet =
  header :: "cell list"
  body :: "cell list list"

definition well_formed :: "worksheet \<Rightarrow> bool" where
  "well_formed ws = list_all (\<lambda>row. length row = length (header ws)) (body ws)"

definition max_row :: "worksheet \<Rightarrow> nat" where
  "max_row ws = Suc (length (body ws))"

text \<open>
  What a cell does with a string. openpyxl keeps the first 32767 characters
  and raises \<^verbatim>\<open>IllegalCharacterError\<close> when a control character other than
  tab, line feed and carriage return is among them. A sheet is saved after
  the writes and loaded again by the next request, and the cell is modelled
  by what is read back: the empty string comes back as an empty cell, and
  the XML reader turns a carriage return, alone or followed by a line feed,
  into one line feed.
\<close>

definition illegal_character :: "char \<Rightarrow> bool" where
  "illegal_character c =
     (let n = (of_char c :: nat) in n \<le> 8 \<or> n = 11 \<or> n = 12 \<or> (14 \<le> n \<and> n \<le> 31))"

definition check_string :: "string \<Rightarrow> error + string" where
  "check_string s =
     (let v = take 32767 s
      in if list_ex illegal_character v then Inl IllegalCharacterError else Inr v)"

fun xml_newlines :: "string \<Rightarrow> string" where
  "xml_newlines [] = []"
| "xml_newlines [c] = (if c = char_of (13 :: nat) then [char_of (10 :: nat)] else [c])"
| "xml_newlines (c # d # s) =
     (if c = char_of (13 :: nat)
      then (if d = char_of (10 :: nat) then char_of (10 :: nat) # xml_newlines s
            else char_of (10 :: nat) # xml_newlines (d # s))
      else c # xml_newlines (d # s))"

definition read_back :: "string \<Rightarrow> cell" where
  "read_back s = (if s = [] then CNone else CStr (xml_newlines s))"

text \<open>
  A cell takes the value it is given, except that \<^verbatim>\<open>ws.cell(..., value=None)\<close>
  leaves the cell as it is, and a nested value is refused with an exception.
\<close>

fun set_value :: "cell \<Rightarrow> jvalue \<Rightarrow> error + cell" where
  "set_value old JNull = Inr old"
| "set_value old (JBool b) = Inr (CBool b)"
| "set_value old (JStr s) =
     (case check_string s of Inl e \<Rightarrow> Inl e | Inr v \<Rightarrow> Inr (read_back v))"
| "set_value old JNested = Inl ValueError"

text \<open>
  A string that a cell stores as it is given: it is not empty, has at most
  32767 characters, and each of them is a tab, a line feed or an ASCII
  character from the space on.
\<close>

definition stored_as_given :: "string \<Rightarrow> bool" where
  "stored_as_given s =
     (s \<noteq> [] \<and> length s \<le> 32767 \<and>
      list_all (\<lambda>c. (of_char c :: nat) = 9 \<or> (of_char c :: nat) = 10 \<or>
                    (32 \<le> (of_char c :: nat) \<and> (of_char c :: nat) < 128)) s)"

text \<open>
  \<^verbatim>\<open>ws.cell(row=r, column=c, value=v)\<close> for a row \<open>r \<ge> 2\<close> and a column
  \<open>c \<ge> 1\<close> of the header, the only cells the handlers address. A row beyond
  \<^verbatim>\<open>max_row\<close> comes into being with empty cells.
\<close>

definition ws_cell :: "worksheet \<Rightarrow> nat \<Rightarrow> nat \<Rightarrow> jvalue \<Rightarrow> error + worksheet" where
  "ws_cell ws r c v =
     (let i = r - 2;
          rows = (if i < length (body ws) then body ws
                  else body ws @ replicate (Suc i - length (body ws))
                                   (replicate (length (header ws)) CNone))
      in case set_value (rows ! i ! (c - 1)) v of
           Inl e \<Rightarrow> Inl e
         | Inr x \<Rightarrow> Inr (ws\<lparr>body := rows[i := (rows ! i)[c - 1 := x]]\<rparr>))"

section \<open>The tracking service (main.py)\<close>

text \<open>
  The state of the service is what is on disk under \<^verbatim>\<open>Nse_files\<close>: the year
  folders that exist, and the \<^verbatim>\<open>tracking.xlsx\<close> of a year when it exists.
  A handler returns the HTTP status code of its answer and the new state.
\<close>

record store =
  folders :: "string set"
  sheets :: "string \<rightharpoonup> worksheet"

definition create_year_folder :: "string \<Rightarrow> store \<Rightarrow> nat \<times> store" where
  "create_year_folder year fs =
     (if \<not> isdigit year then (400, fs)
      else if year \<notin> folders fs then (201, fs\<lparr>folders := insert year (folders fs)\<rparr>)
      else (200, fs))"

definition headers :: "cell list" where
  "headers = CStr ''date'' # map (\<lambda>i. CStr (''file_'' @ str_nat i)) [1..<12]"


text \<open>The request of \<^verbatim>\<open>/api/<year>/tracking/<date>\<close>: its method, and for a
  POST the items of the JSON object it carries, in order.\<close>

datatype request = Get | Post "(string \<times> jvalue) list"

definition row_data :: "cell list \<Rightarrow> cell list \<Rightarrow> (cell \<rightharpoonup> cell)" where
  "row_data hs row = dict_of (zip hs row)"

definition row_date_str :: "cell list \<Rightarrow> cell list \<Rightarrow> string" where
  "row_date_str hs row =
     py_str (case row_data hs row (CStr ''date'') of None \<Rightarrow> CStr [] | Some v \<Rightarrow> v)"

fun find_row :: "cell list \<Rightarrow> string \<Rightarrow> nat \<Rightarrow> cell list list \<Rightarrow> (nat \<times> cell list) option" where
  "find_row hs date idx [] = None"
| "find_row hs date idx (row # rows) =
     (if row_date_str hs row = date then Some (idx, row)
      else find_row hs date (Suc idx) rows)"

definition header_map :: "cell list \<Rightarrow> (cell \<rightharpoonup> nat)" where
  "header_map hs = dict_of (zip hs [1..<Suc (length hs)])"

fun write_updates :: "(cell \<rightharpoonup> nat) \<Rightarrow> nat \<Rightarrow> (string \<times> jvalue) list \<Rightarrow> worksheet
    \<Rightarrow> error + worksheet" where
  "write_updates hm r [] ws = Inr ws"
| "write_updates hm r ((key, v) # us) ws =
     (case hm (CStr key) of
        None \<Rightarrow> write_updates hm r us ws
      | Some col \<Rightarrow>
          (case ws_cell ws r col v of
             Inl e \<Rightarrow> Inl e
           | Inr ws' \<Rightarrow> write_updates hm r us ws'))"

text \<open>
  The answer of \<^verbatim>\<open>manage_tracking_by_date\<close>: the status code and, for a
  successful GET, the row found (the header cells zipped with the row).
\<close>

definition manage_tracking_by_date ::
    "string \<Rightarrow> string \<Rightarrow> request \<Rightarrow> store \<Rightarrow> (nat \<times> (cell \<times> cell) list option) \<times> store" where
  "manage_tracking_by_date year date req fs =
     (if \<not> isdigit year then ((400, None), fs)
      else case sheets fs year of
        None \<Rightarrow> ((404, None), fs)
      | Some ws \<Rightarrow>
          let hs = header ws;
              target = find_row hs date 2 (body ws)
          in case req of
            Post updates \<Rightarrow>
              if updates = [] then ((400, None), fs)
              else
                let hm = header_map hs
                in (case target of
                      Some (target_row_idx, found) \<Rightarrow>
                        (case write_updates hm target_row_idx updates ws of
                           Inl e \<Rightarrow> ((500, None), fs)
                         | Inr ws' \<Rightarrow> ((200, None), fs\<lparr>sheets := (sheets fs)(year \<mapsto> ws')\<rparr>))
                    | None \<Rightarrow>
                        let next_row = max_row ws + 1;
                            dated = (case hm (CStr ''date'') of
                                       None \<Rightarrow> Inr ws
                                     | Some col \<Rightarrow> ws_cell ws next_row col (JStr date))
                        in (case dated of
                              Inl e \<Rightarrow> ((500, None), fs)
                            | Inr ws1 \<Rightarrow>
                                (case write_updates hm next_row updates ws1 of
                                   Inl e \<Rightarrow> ((500, None), fs)
                                 | Inr ws' \<Rightarrow>
                                     ((201, None), fs\<lparr>sheets := (sheets fs)(year \<mapsto> ws')\<rparr>))))
          | Get \<Rightarrow>
              (case target of
                 Some (target_row_idx, found) \<Rightarrow>
                   if zip hs found = [] then ((404, None), fs)
                   else ((200, Some (zip hs found)), fs)
               | None \<Rightarrow> ((404, None), fs)))"

text \<open>The calls of \<^verbatim>\<open>UpdateStatus\<close> made one after the other: each is a POST
  to the tracking endpoint of the year, for a date, with a payload.\<close>

fun update_status_seq :: "string \<Rightarrow> (string \<times> (string \<times> jvalue) list) list \<Rightarrow> store \<Rightarrow> store" where
  "update_status_seq year [] fs = fs"
| "update_status_seq year ((date, updates) # calls) fs =
     update_status_seq year calls (snd (manage_tracking_by_date year date (Post updates) fs))"

section \<open>The calendar (get\_year\_dates)\<close>

text \<open>
  A \<^verbatim>\<open>datetime.date\<close> is a year, a month and a day of the proleptic Gregorian
  calendar, with the year between 1 and 9999. Adding or subtracting
  \<^verbatim>\<open>timedelta(days=1)\<close> moves to the next or the previous calendar day and
  raises \<^verbatim>\<open>OverflowError\<close> outside that range.
\<close>

record pdate =
  d_year :: int
  d_month :: int
  d_day :: int

definition is_leap :: "int \<Rightarrow> bool" where
  "is_leap y = (y mod 4 = 0 \<and> (y mod 100 \<noteq> 0 \<or> y mod 400 = 0))"

definition days_in_month :: "int \<Rightarrow> int \<Rightarrow> int" where
  "days_in_month y m =
     (if m = 2 then (if is_leap y then 29 else 28)
      else if m = 4 \<or> m = 6 \<or> m = 9 \<or> m = 11 then 30 else 31)"

definition valid_date :: "pdate \<Rightarrow> bool" where
  "valid_date d =
     (1 \<le> d_year d \<and> d_year d \<le> 9999 \<and> 1 \<le> d_month d \<and> d_month d \<le> 12 \<and>
      1 \<le> d_day d \<and> d_day d \<le> days_in_month (d_year d) (d_month d))"

text \<open>\<^verbatim>\<open>date(y, m, d)\<close> raises \<^verbatim>\<open>ValueError\<close> for a date that does not exist.\<close>

definition mk_date :: "int \<Rightarrow> int \<Rightarrow> int \<Rightarrow> error + pdate" where
  "mk_date y m d =
     (let r = \<lparr>d_year = y, d_month = m, d_day = d\<rparr>
      in if valid_date r then Inr r else Inl ValueError)"

definition date_lt :: "pdate \<Rightarrow> pdate \<Rightarrow> bool" where
  "date_lt a b =
     (d_year a < d_year b \<or>
      (d_year a = d_year b \<and>
       (d_month a < d_month b \<or> (d_month a = d_month b \<and> d_day a < d_day b))))"

definition date_le :: "pdate \<Rightarrow> pdate \<Rightarrow> bool" where
  "date_le a b = (date_lt a b \<or> a = b)"

definition plus_one_day :: "pdate \<Rightarrow> error + pdate" where
  "plus_one_day d =
     (if d_day d < days_in_month (d_year d) (d_month d) then Inr (d\<lparr>d_day := d_day d + 1\<rparr>)
      else if d_month d < 12 then Inr (d\<lparr>d_month := d_month d + 1, d_day := 1\<rparr>)
      else if d_year d < 9999 then Inr \<lparr>d_year = d_year d + 1, d_month = 1, d_day = 1\<rparr>
      else Inl OverflowError)"

definition minus_one_day :: "pdate \<Rightarrow> error + pdate" where
  "minus_one_day d =
     (if 1 < d_day d then Inr (d\<lparr>d_day := d_day d - 1\<rparr>)
      else if 1 < d_month d
        then Inr (d\<lparr>d_month := d_month d - 1, d_day := days_in_month (d_year d) (d_month d - 1)\<rparr>)
      else if 1 < d_year d then Inr \<lparr>d_year = d_year d - 1, d_month = 12, d_day = 31\<rparr>
      else Inl OverflowError)"

text \<open>
  \<^verbatim>\<open>strftime("%Y-%m-%d")\<close>: the year in decimal, the month and the day on two
  digits, padded with zeros. The year is printed as the C library of Linux
  prints it, without padding; a year from 1000 on has four digits on every
  platform.
\<close>

definition zfill :: "nat \<Rightarrow> string \<Rightarrow> string" where
  "zfill w s = replicate (w - length s) (CHR ''0'') @ s"

definition strftime :: "pdate \<Rightarrow> string" where
  "strftime d =
     str_nat (nat (d_year d)) @ ''-'' @ zfill 2 (str_nat (nat (d_month d))) @ ''-'' @
     zfill 2 (str_nat (nat (d_day d)))"

text \<open>The loop \<^verbatim>\<open>while current_date <= end_date\<close>.\<close>

function date_loop :: "pdate \<Rightarrow> pdate \<Rightarrow> string list \<Rightarrow> error + string list" where
  "date_loop current_date end_date all_dates =
     (if date_le current_date end_date
      then (case plus_one_day current_date of
              Inl e \<Rightarrow> Inl e
            | Inr next_date \<Rightarrow> date_loop next_date end_date (all_dates @ [strftime current_date]))
      else Inr all_dates)"
  by pat_completeness auto
termination
proof (relation "inv_image (less_than <*lex*> less_than <*lex*> less_than)
    (\<lambda>(c, e, a). (nat (d_year e + 1 - d_year c), nat (12 - d_month c), nat (31 - d_day c)))")
  show "wf (inv_image (less_than <*lex*> less_than <*lex*> less_than)
    (\<lambda>(c, e, a). (nat (d_year e + 1 - d_year c), nat (12 - d_month c), nat (31 - d_day c))))"
    by (intro wf_inv_image wf_lex_prod wf_less_than)
next
  fix current_date end_date :: pdate and all_dates :: "string list" and next_date :: pdate
  assume le: "date_le current_date end_date"
    and nx: "plus_one_day current_date = Inr next_date"
  have dim: "days_in_month (d_year current_date) (d_month current_date) \<le> 31"
    by (simp add: days_in_month_def)
  from le have "d_year current_date \<le> d_year end_date"
    by (auto simp: date_le_def date_lt_def)
  with nx dim show "((next_date, end_date, all_dates @ [strftime current_date]),
      (current_date, end_date, all_dates)) \<in>
    inv_image (less_than <*lex*> less_than <*lex*> less_than)
      (\<lambda>(c, e, a). (nat (d_year e + 1 - d_year c), nat (12 - d_month c), nat (31 - d_day c)))"
    by (auto simp: plus_one_day_def split: if_splits)
qed

declare date_loop.simps [simp del]

text \<open>The answer of \<^verbatim>\<open>get_year_dates\<close>, for the date that \<^verbatim>\<open>date.today()\<close>
  returns. An exception gives the answer with status 400.\<close>

record calendar =
  requested_year :: int
  is_current_year :: bool
  range_start :: string
  range_end :: string
  total_days :: nat
  dates :: "string list"

definition get_year_dates :: "pdate \<Rightarrow> int \<Rightarrow> error + calendar" where
  "get_year_dates today year =
     (case mk_date (year - 1) 10 1 of
        Inl e \<Rightarrow> Inl e
      | Inr start_date \<Rightarrow>
          (case (if year = d_year today then minus_one_day today else mk_date year 12 31) of
             Inl e \<Rightarrow> Inl e
           | Inr end_date \<Rightarrow>
               (case date_loop start_date end_date [] of
                  Inl e \<Rightarrow> Inl e
                | Inr all_dates \<Rightarrow>
                    Inr \<lparr>requested_year = year, is_current_year = (year = d_year today),
                         range_start = strftime start_date, range_end = strftime end_date,
                         total_days = length all_dates, dates = all_dates\<rparr>)))"

text \<open>The shape \<^verbatim>\<open>YYYY-MM-DD\<close> of a date string.\<close>

definition iso_shape :: "string \<Rightarrow> bool" where
  "iso_shape s =
     (length s = 10 \<and> s ! 4 = CHR ''-'' \<and> s ! 7 = CHR ''-'' \<and>
      list_all is_digit (take 4 s) \<and> list_all is_digit (take 2 (drop 5 s)) \<and>
      list_all is_digit (drop 8 s))"

section \<open>The drivers\<close>

text \<open>
  An external downloader takes a date string and returns what it stored, a
  string as its signature \<^verbatim>\<open>Optional[str]\<close> declares, or \<^verbatim>\<open>None\<close> when
  there was nothing to download. The drivers call the service
  of the year they are configured for, \<^verbatim>\<open>YEAR_TO_FETCH\<close> by default; the
  service is taken to be reachable.
\<close>

definition YEAR_TO_FETCH :: int where
  "YEAR_TO_FETCH = 2026"

text \<open>The f-string \<^verbatim>\<open>f"{file_data}"\<close> of a downloader's result.\<close>

fun fstr :: "string option \<Rightarrow> string" where
  "fstr None = ''None''"
| "fstr (Some s) = s"

subsection \<open>The script download\_main.py\<close>

text \<open>
  The script runs one loop over the dates for each slot. Its state is the
  state of the service and the variable \<^verbatim>\<open>data\<close>, of which only the entry
  \<^verbatim>\<open>data.get("data")\<close> is read: \<open>None\<close> stands for a \<^verbatim>\<open>data\<close> that is
  unbound or has no such entry. An exception other than a lost connection
  ends the script; what was posted before stays in the service.
\<close>

record script =
  service :: store
  data :: "(cell \<times> cell) list option"
  crashed :: "error option"

definition script_lookup :: "(cell \<times> cell) list option \<Rightarrow> string \<Rightarrow> error + cell" where
  "script_lookup d key =
     (case d of
        None \<Rightarrow> Inl TypeError
      | Some items \<Rightarrow> (case dict_of items (CStr key) of None \<Rightarrow> Inl KeyError | Some v \<Rightarrow> Inr v))"

definition script_post :: "string \<Rightarrow> string \<Rightarrow> string option \<Rightarrow> store \<Rightarrow> store" where
  "script_post key date file_data fs =
     snd (manage_tracking_by_date (str_int YEAR_TO_FETCH) date (Post [(key, JStr (fstr file_data))]) fs)"

text \<open>
  One iteration of the loop of a slot. In the loop of \<^verbatim>\<open>file_1\<close> the branch for
  a status other than 200 prints the downloaded value; in the loops of the
  other slots it prints \<^verbatim>\<open>data.get("data")[key]\<close>, after the POST.
\<close>

definition script_step :: "string \<Rightarrow> (string \<Rightarrow> string option) \<Rightarrow> string \<Rightarrow> script \<Rightarrow> script" where
  "script_step key download date st =
     (let response = fst (manage_tracking_by_date (str_int YEAR_TO_FETCH) date Get (service st))
      in if fst response = 200
         then
           let st1 = st\<lparr>data := snd response\<rparr>
           in (case script_lookup (data st1) key of
                 Inl e \<Rightarrow> st1\<lparr>crashed := Some e\<rparr>
               | Inr v \<Rightarrow>
                   if truthy v then st1
                   else st1\<lparr>service := script_post key date (download date) (service st1)\<rparr>)
         else
           let st1 = st\<lparr>service := script_post key date (download date) (service st)\<rparr>
           in if key = ''file_1'' then st1
              else (case script_lookup (data st1) key of
                      Inl e \<Rightarrow> st1\<lparr>crashed := Some e\<rparr>
                    | Inr v \<Rightarrow> st1))"

fun script_loop :: "string \<Rightarrow> (string \<Rightarrow> string option) \<Rightarrow> string list \<Rightarrow> script \<Rightarrow> script" where
  "script_loop key download [] st = st"
| "script_loop key download (date # ds) st =
     (let st1 = script_step key download date st
      in if crashed st1 = None then script_loop key download ds st1 else st1)"

subsection \<open>The client data\_downloader.py\<close>

definition get_tracking_status :: "int \<Rightarrow> string \<Rightarrow> store \<Rightarrow> (cell \<times> cell) list option" where
  "get_tracking_status year date fs =
     (let response = fst (manage_tracking_by_date (str_int year) date Get fs)
      in if fst response = 200 then snd response else None)"

definition update_tracking_status :: "int \<Rightarrow> string \<Rightarrow> string \<Rightarrow> string \<Rightarrow> store \<Rightarrow> store" where
  "update_tracking_status year date file_key file_data fs =
     snd (manage_tracking_by_date (str_int year) date (Post [(file_key, JStr file_data)]) fs)"

definition download_tasks :: "string list" where
  "download_tasks = [''file_1'', ''file_2'', ''file_3'', ''file_4'', ''file_5'']"

text \<open>
  The loop over the tasks of \<^verbatim>\<open>process_date\<close>. \<open>files_status\<close> is the row read
  once before the loop; \<open>download file_key\<close> is the downloader of the task.
  The state is the state of the service and the list of the tasks whose
  downloader was invoked.
\<close>

fun run_tasks :: "int \<Rightarrow> (string \<Rightarrow> string \<Rightarrow> string option) \<Rightarrow> string \<Rightarrow> (cell \<rightharpoonup> cell)
    \<Rightarrow> string list \<Rightarrow> store \<times> string list \<Rightarrow> store \<times> string list" where
  "run_tasks year download date files_status [] st = st"
| "run_tasks year download date files_status (file_key # tasks) (fs, invoked) =
     (if (case files_status (CStr file_key) of None \<Rightarrow> False | Some v \<Rightarrow> truthy v)
      then run_tasks year download date files_status tasks (fs, invoked)
      else
        (case download file_key date of
           None \<Rightarrow> run_tasks year download date files_status tasks (fs, invoked @ [file_key])
         | Some file_data \<Rightarrow>
             if file_data \<noteq> []
             then run_tasks year download date files_status tasks
                    (update_tracking_status year date file_key file_data fs, invoked @ [file_key])
             else run_tasks year download date files_status tasks (fs, invoked @ [file_key])))"

definition process_date :: "int \<Rightarrow> (string \<Rightarrow> string \<Rightarrow> string option) \<Rightarrow> string \<Rightarrow> store
    \<Rightarrow> store \<times> string list" where
  "process_date year download date fs =
     (let files_status = (case get_tracking_status year date fs of
                            None \<Rightarrow> Map.empty
                          | Some items \<Rightarrow> dict_of items)
      in run_tasks year download date files_status download_tasks (fs, []))"

section \<open>Reading the ledger\<close>

text \<open>
  The value of a slot as a GET of the date shows it, \<open>None\<close> when the date has
  no row or the row no such column; a slot is filled when that value is true
  for Python, as the drivers test it.
\<close>

definition slot_value :: "store \<Rightarrow> string \<Rightarrow> string \<Rightarrow> string \<Rightarrow> cell option" where
  "slot_value fs year date key =
     (let response = fst (manage_tracking_by_date year date Get fs)
      in if fst response = 200
         then (case snd response of None \<Rightarrow> None | Some items \<Rightarrow> dict_of items (CStr key))
         else None)"

definition filled :: "store \<Rightarrow> string \<Rightarrow> string \<Rightarrow> string \<Rightarrow> bool" where
  "filled fs year date key = (case slot_value fs year date key of None \<Rightarrow> False | Some v \<Rightarrow> truthy v)"

text \<open>The effect of the writes of one request on the row they address.\<close>

definition set_cell :: "cell list \<Rightarrow> nat \<Rightarrow> jvalue \<Rightarrow> error + cell list" where
  "set_cell row c v =
     (case set_value (row ! (c - 1)) v of Inl e \<Rightarrow> Inl e | Inr x \<Rightarrow> Inr (row[c - 1 := x]))"

fun write_row :: "(cell \<rightharpoonup> nat) \<Rightarrow> (string \<times> jvalue) list \<Rightarrow> cell list \<Rightarrow> error + cell list" where
  "write_row hm [] row = Inr row"
| "write_row hm ((key, v) # us) row =
     (case hm (CStr key) of
        None \<Rightarrow> write_row hm us row
      | Some col \<Rightarrow>
          (case set_cell row col v of
             Inl e \<Rightarrow> Inl e
           | Inr row' \<Rightarrow> write_row hm us row'))"

definition blank_row :: "worksheet \<Rightarrow> cell list" where
  "blank_row ws = replicate (length (header ws)) CNone"

text \<open>A ledger in use: the year is made of digits, its sheet exists, every
  row has the width of the header, and the header has a date column.\<close>

definition ledger :: "store \<Rightarrow> string \<Rightarrow> worksheet \<Rightarrow> bool" where
  "ledger fs year ws =
     (isdigit year \<and> sheets fs year = Some ws \<and> well_formed ws \<and>
      CStr ''date'' \<in> set (header ws))"

text \<open>A ledger of the year 2026 with one row, used as an example.\<close>

definition example_sheet :: worksheet where
  "example_sheet =
     \<lparr>header = headers,
      body = [[CStr ''2026-01-01'', CStr ''a.csv'', CNone, CNone, CNone, CNone, CNone, CNone,
               CNone, CNone, CNone, CNone]]\<rparr>"

definition example_store :: store where
  "example_store = \<lparr>folders = {''2026''}, sheets = [''2026'' \<mapsto> example_sheet]\<rparr>"

text \<open>
  A payload value that cannot empty a cell: it is true for Python, or it is
  not written at all (\<^verbatim>\<open>null\<close>, or a nested value, which is refused).
\<close>

fun not_emptying :: "jvalue \<Rightarrow> bool" where
  "not_emptying JNull = True"
| "not_emptying (JBool b) = b"
| "not_emptying (JStr s) = (s \<noteq> [])"
| "not_emptying JNested = True"

text \<open>Every row of the first sheet is still there in the second, and each of
  its cells that held a true value still holds one.\<close>

definition keeps_filled :: "worksheet \<Rightarrow> worksheet \<Rightarrow> bool" where
  "keeps_filled ws ws' =
     (length (body ws) \<le> length (body ws') \<and>
      list_all2 (list_all2 (\<lambda>c c'. truthy c \<longrightarrow> truthy c'))
        (body ws) (take (length (body ws)) (body ws')))"

text \<open>The date column of a sheet, as the values a GET shows and as the
  strings the lookup of a date compares.\<close>

definition date_column :: "worksheet \<Rightarrow> cell option list" where
  "date_column ws = map (\<lambda>row. row_data (header ws) row (CStr ''date'')) (body ws)"

definition date_strings :: "worksheet \<Rightarrow> string list" where
  "date_strings ws = map (row_date_str (header ws)) (body ws)"

section \<open>Dictionaries and the header\<close>

lemma dict_of_snoc: "dict_of (xs @ [(k, v)]) = (dict_of xs)(k \<mapsto> v)"
  by (simp add: dict_of_def)

lemma dict_of_Nil: "dict_of [] = Map.empty"
  by (simp add: dict_of_def)

lemma header_map_snoc:
  "header_map (hs @ [h]) = (header_map hs)(h \<mapsto> Suc (length hs))"
proof -
  have "[1..<Suc (length (hs @ [h]))] = [1..<Suc (length hs)] @ [Suc (length hs)]"
    by simp
  then have "zip (hs @ [h]) [1..<Suc (length (hs @ [h]))]
      = zip hs [1..<Suc (length hs)] @ [(h, Suc (length hs))]"
    by (simp del: upt_Suc)
  then show ?thesis
    unfolding header_map_def by (simp only: dict_of_snoc)
qed

lemma header_map_Nil: "header_map [] = Map.empty"
  by (simp add: header_map_def dict_of_Nil)

lemma header_map_bound:
  "header_map hs k = Some c \<Longrightarrow> 1 \<le> c \<and> c \<le> length hs \<and> hs ! (c - 1) = k"
proof (induction hs arbitrary: c rule: rev_induct)
  case Nil
  then show ?case by (simp add: header_map_Nil)
next
  case (snoc h hs)
  show ?case
  proof (cases "k = h")
    case True
    with snoc.prems show ?thesis by (auto simp: header_map_snoc)
  next
    case False
    with snoc.prems have "header_map hs k = Some c" by (simp add: header_map_snoc)
    from snoc.IH [OF this] show ?thesis by (auto simp: nth_append)
  qed
qed

lemma header_map_None: "header_map hs k = None \<longleftrightarrow> k \<notin> set hs"
  by (induction hs rule: rev_induct) (auto simp: header_map_Nil header_map_snoc)

lemma row_data_header_map:
  "length row = length hs \<Longrightarrow>
   row_data hs row k = map_option (\<lambda>c. row ! (c - 1)) (header_map hs k)"
proof (induction hs arbitrary: row rule: rev_induct)
  case Nil
  then show ?case by (simp add: row_data_def header_map_def dict_of_Nil)
next
  case (snoc h hs)
  from snoc.prems obtain r x where row: "row = r @ [x]" and len: "length r = length hs"
    by (cases row rule: rev_cases) auto
  show ?case
  proof (cases "k = h")
    case True
    then show ?thesis using len by (simp add: row row_data_def header_map_snoc dict_of_snoc nth_append)
  next
    case False
    have "row_data hs r k = map_option (\<lambda>c. r ! (c - 1)) (header_map hs k)"
      by (rule snoc.IH [OF len])
    moreover have "\<And>c. header_map hs k = Some c \<Longrightarrow> (r @ [x]) ! (c - 1) = r ! (c - 1)"
      using header_map_bound [of hs k] len by (auto simp: nth_append)
    ultimately show ?thesis using False len
      by (cases "header_map hs k") (simp_all add: row row_data_def header_map_snoc dict_of_snoc)
  qed
qed

lemma headers_eq:
  "headers = [CStr ''date'', CStr ''file_1'', CStr ''file_2'', CStr ''file_3'', CStr ''file_4'',
     CStr ''file_5'', CStr ''file_6'', CStr ''file_7'', CStr ''file_8'', CStr ''file_9'',
     CStr ''file_10'', CStr ''file_11'']"
  by code_simp

section \<open>Strings in a cell\<close>

lemma xml_newlines_id: "char_of (13 :: nat) \<notin> set s \<Longrightarrow> xml_newlines s = s"
  by (induction s rule: xml_newlines.induct) auto

lemma xml_newlines_empty: "xml_newlines s = [] \<longleftrightarrow> s = []"
  by (induction s rule: xml_newlines.induct) auto

lemma set_value_stored:
  assumes "stored_as_given s"
  shows "set_value old (JStr s) = Inr (CStr s)"
proof -
  from assms have ne: "s \<noteq> []" and len: "length s \<le> 32767"
    and ch: "\<forall>c \<in> set s. (of_char c :: nat) = 9 \<or> (of_char c :: nat) = 10 \<or>
                    (32 \<le> (of_char c :: nat) \<and> (of_char c :: nat) < 128)"
    by (simp_all add: stored_as_given_def list_all_iff)
  from ch have "\<not> list_ex illegal_character s"
    by (auto simp: list_ex_iff illegal_character_def Let_def)
  with len have c: "check_string s = Inr s" by (simp add: check_string_def)
  have "char_of (13 :: nat) \<notin> set s"
  proof
    assume "char_of (13 :: nat) \<in> set s"
    with ch have "(of_char (char_of (13 :: nat)) :: nat) = 9 \<or>
        (of_char (char_of (13 :: nat)) :: nat) = 10 \<or>
        (32 \<le> (of_char (char_of (13 :: nat)) :: nat) \<and> (of_char (char_of (13 :: nat)) :: nat) < 128)"
      by blast
    then show False by simp
  qed
  with ne c show ?thesis by (simp add: read_back_def xml_newlines_id)
qed

lemma set_value_string_old: "set_value old (JStr s) = set_value CNone (JStr s)"
  by simp

lemma set_value_string_filled:
  "s \<noteq> [] \<Longrightarrow> set_value old (JStr s) = Inr x \<Longrightarrow> truthy x"
  by (auto simp: check_string_def read_back_def xml_newlines_empty Let_def split: if_splits)

section \<open>Writes on one row\<close>

lemma set_cell_length: "set_cell row c v = Inr row' \<Longrightarrow> length row' = length row"
  by (auto simp: set_cell_def split: sum.splits)

lemma write_row_length: "write_row hm us row = Inr row' \<Longrightarrow> length row' = length row"
proof (induction us arbitrary: row)
  case Nil
  then show ?case by simp
next
  case (Cons u us)
  obtain k v where u: "u = (k, v)" by (cases u)
  from Cons show ?case
    by (auto simp: u split: option.splits sum.splits dest: set_cell_length)
qed

lemma set_cell_other:
  "set_cell row c v = Inr row' \<Longrightarrow> c \<noteq> Suc j \<Longrightarrow> c \<noteq> 0 \<Longrightarrow> row' ! j = row ! j"
  by (auto simp: set_cell_def split: sum.splits)

lemma write_row_frame:
  "write_row hm us row = Inr row' \<Longrightarrow>
   (\<And>k c. k \<in> fst ` set us \<Longrightarrow> hm (CStr k) = Some c \<Longrightarrow> c \<noteq> Suc j \<and> c \<noteq> 0) \<Longrightarrow>
   row' ! j = row ! j"
proof (induction us arbitrary: row)
  case Nil
  then show ?case by simp
next
  case (Cons u us)
  obtain k v where u: "u = (k, v)" by (cases u)
  have rest: "\<And>k c. k \<in> fst ` set us \<Longrightarrow> hm (CStr k) = Some c \<Longrightarrow> c \<noteq> Suc j \<and> c \<noteq> 0"
    using Cons.prems(2) by auto
  show ?case
  proof (cases "hm (CStr k)")
    case None
    with Cons.prems(1) have "write_row hm us row = Inr row'" by (simp add: u)
    from Cons.IH [OF this rest] show ?thesis by simp
  next
    case (Some c)
    with Cons.prems(1) obtain row1 where r1: "set_cell row c v = Inr row1"
      and w: "write_row hm us row1 = Inr row'"
      by (auto simp: u split: sum.splits)
    have "c \<noteq> Suc j \<and> c \<noteq> 0" using Cons.prems(2) [of k c] Some by (simp add: u)
    with r1 have "row1 ! j = row ! j" by (auto dest: set_cell_other)
    with Cons.IH [OF w rest] show ?thesis by simp
  qed
qed

lemma write_row_unknown:
  "(\<And>k. k \<in> fst ` set us \<Longrightarrow> hm (CStr k) = None) \<Longrightarrow> write_row hm us row = Inr row"
proof (induction us)
  case Nil
  then show ?case by simp
next
  case (Cons u us)
  obtain k v where u: "u = (k, v)" by (cases u)
  from Cons show ?case by (simp add: u)
qed

text \<open>Writing the same updates again, on any row between the old and the
  new one, gives the new row.\<close>

lemma write_row_absorb:
  "write_row hm us row = Inr row' \<Longrightarrow> length row2 = length row \<Longrightarrow>
   (\<And>j. j < length row \<Longrightarrow> row2 ! j = row ! j \<or> row2 ! j = row' ! j) \<Longrightarrow>
   write_row hm us row2 = Inr row'"
proof (induction us arbitrary: row row2)
  case Nil
  then have "row' = row" by simp
  moreover from Nil have "row2 = row" by (auto intro: nth_equalityI)
  ultimately show ?case by simp
next
  case (Cons u us)
  obtain k v where u: "u = (k, v)" by (cases u)
  show ?case
  proof (cases "hm (CStr k)")
    case None
    with Cons.prems(1) have "write_row hm us row = Inr row'" by (simp add: u)
    from Cons.IH [OF this Cons.prems(2) Cons.prems(3)] None show ?thesis by (simp add: u)
  next
    case (Some c)
    with Cons.prems(1) obtain row1 where r1: "set_cell row c v = Inr row1"
      and w: "write_row hm us row1 = Inr row'"
      by (auto simp: u split: sum.splits)
    from r1 obtain x where x: "set_value (row ! (c - 1)) v = Inr x" and row1: "row1 = row[c - 1 := x]"
      by (auto simp: set_cell_def split: sum.splits)
    have len': "length row' = length row"
      using write_row_length [OF Cons.prems(1)] .
    show ?thesis
    proof (cases "v = JNull")
      case True
      with x row1 have "row1 = row" by auto
      moreover from True have "set_cell row2 c v = Inr row2" by (simp add: set_cell_def)
      ultimately show ?thesis
        using Cons.IH [OF _ Cons.prems(2) Cons.prems(3)] w Some by (simp add: u)
    next
      case False
      with x have x2: "set_value (row2 ! (c - 1)) v = Inr x" by (cases v) auto
      then have s2: "set_cell row2 c v = Inr (row2[c - 1 := x])" by (simp add: set_cell_def)
      have l2: "length (row2[c - 1 := x]) = length row1" using Cons.prems(2) row1 by simp
      have agree: "\<And>j. j < length row1 \<Longrightarrow>
          (row2[c - 1 := x]) ! j = row1 ! j \<or> (row2[c - 1 := x]) ! j = row' ! j"
      proof -
        fix j assume j: "j < length row1"
        show "(row2[c - 1 := x]) ! j = row1 ! j \<or> (row2[c - 1 := x]) ! j = row' ! j"
        proof (cases "j = c - 1")
          case True
          with j row1 Cons.prems(2) show ?thesis by simp
        next
          case False
          with j row1 Cons.prems(3) [of j] show ?thesis by simp
        qed
      qed
      from Cons.IH [OF w l2 agree] s2 Some show ?thesis by (simp add: u)
    qed
  qed
qed

lemma write_row_idem: "write_row hm us row = Inr row' \<Longrightarrow> write_row hm us row' = Inr row'"
  using write_row_absorb [of hm us row row' row'] write_row_length [of hm us row row'] by simp

section \<open>Writes on the worksheet\<close>

lemma ws_cell_existing:
  "i < length (body ws) \<Longrightarrow>
   ws_cell ws (Suc (Suc i)) c v =
     (case set_cell (body ws ! i) c v of
        Inl e \<Rightarrow> Inl e
      | Inr row' \<Rightarrow> Inr (ws\<lparr>body := (body ws)[i := row']\<rparr>))"
  by (simp add: ws_cell_def set_cell_def split: sum.splits)

lemma write_updates_existing:
  "i < length (body ws) \<Longrightarrow>
   write_updates hm (Suc (Suc i)) us ws =
     (case write_row hm us (body ws ! i) of
        Inl e \<Rightarrow> Inl e
      | Inr row' \<Rightarrow> Inr (ws\<lparr>body := (body ws)[i := row']\<rparr>))"
proof (induction us arbitrary: ws)
  case Nil
  then show ?case by simp
next
  case (Cons u us)
  obtain k v where u: "u = (k, v)" by (cases u)
  show ?case
  proof (cases "hm (CStr k)")
    case None
    with Cons show ?thesis by (simp add: u)
  next
    case (Some c)
    show ?thesis
    proof (cases "set_cell (body ws ! i) c v")
      case (Inl e)
      with Some Cons.prems show ?thesis by (simp add: u ws_cell_existing)
    next
      case (Inr row1)
      let ?ws1 = "ws\<lparr>body := (body ws)[i := row1]\<rparr>"
      have i1: "i < length (body ?ws1)" using Cons.prems by simp
      have "write_updates hm (Suc (Suc i)) us ?ws1 =
          (case write_row hm us (body ?ws1 ! i) of
             Inl e \<Rightarrow> Inl e
           | Inr row' \<Rightarrow> Inr (?ws1\<lparr>body := (body ?ws1)[i := row']\<rparr>))"
        by (rule Cons.IH [OF i1])
      with Inr Some Cons.prems show ?thesis
        by (simp add: u ws_cell_existing split: sum.splits)
    qed
  qed
qed

lemma ws_cell_append:
  "stored_as_given d \<Longrightarrow>
   ws_cell ws (Suc (max_row ws)) c (JStr d) =
     Inr (ws\<lparr>body := body ws @ [(blank_row ws)[c - 1 := CStr d]]\<rparr>)"
  by (simp add: ws_cell_def max_row_def blank_row_def nth_append set_value_stored
      del: set_value.simps)

section \<open>Finding the row of a date\<close>

lemma find_row_Some:
  "find_row hs date idx rows = Some (j, row) \<Longrightarrow>
   idx \<le> j \<and> j - idx < length rows \<and> rows ! (j - idx) = row \<and> row_date_str hs row = date \<and>
   (\<forall>i < j - idx. row_date_str hs (rows ! i) \<noteq> date)"
proof (induction rows arbitrary: idx)
  case Nil
  then show ?case by simp
next
  case (Cons r rows)
  show ?case
  proof (cases "row_date_str hs r = date")
    case True
    with Cons.prems show ?thesis by simp
  next
    case False
    with Cons.prems have "find_row hs date (Suc idx) rows = Some (j, row)" by simp
    from Cons.IH [OF this] have ih: "Suc idx \<le> j" "j - Suc idx < length rows"
      "rows ! (j - Suc idx) = row" "row_date_str hs row = date"
      "\<forall>i < j - Suc idx. row_date_str hs (rows ! i) \<noteq> date" by simp_all
    from ih(1) have eq: "j - idx = Suc (j - Suc idx)" by simp
    have "\<forall>i < j - idx. row_date_str hs ((r # rows) ! i) \<noteq> date"
    proof (intro allI impI)
      fix i assume "i < j - idx"
      then show "row_date_str hs ((r # rows) ! i) \<noteq> date"
        using False ih(5) eq by (cases i) auto
    qed
    with ih eq show ?thesis by simp
  qed
qed

lemma find_row_None:
  "find_row hs date idx rows = None \<longleftrightarrow> (\<forall>row \<in> set rows. row_date_str hs row \<noteq> date)"
  by (induction rows arbitrary: idx) auto

lemma find_row_at:
  "i < length rows \<Longrightarrow> row_date_str hs (rows ! i) = date \<Longrightarrow>
   (\<forall>i' < i. row_date_str hs (rows ! i') \<noteq> date) \<Longrightarrow>
   find_row hs date idx rows = Some (idx + i, rows ! i)"
proof (induction rows arbitrary: idx i)
  case Nil
  then show ?case by simp
next
  case (Cons r rows)
  show ?case
  proof (cases i)
    case 0
    with Cons.prems show ?thesis by simp
  next
    case (Suc n)
    from Cons.prems(3) Suc have r: "row_date_str hs r \<noteq> date" by auto
    have n: "n < length rows" using Cons.prems(1) Suc by simp
    have d: "row_date_str hs (rows ! n) = date" using Cons.prems(2) Suc by simp
    have b: "\<forall>i' < n. row_date_str hs (rows ! i') \<noteq> date"
    proof (intro allI impI)
      fix i' assume "i' < n"
      then have "Suc i' < i" using Suc by simp
      with Cons.prems(3) have "row_date_str hs ((r # rows) ! Suc i') \<noteq> date" by blast
      then show "row_date_str hs (rows ! i') \<noteq> date" by simp
    qed
    from Cons.IH [OF n d b, of "Suc idx"] r Suc show ?thesis by simp
  qed
qed

text \<open>The date string of a row is read in the column of the header named
  \<^verbatim>\<open>date\<close>.\<close>

lemma row_date_str_col:
  "length row = length hs \<Longrightarrow> header_map hs (CStr ''date'') = Some dc \<Longrightarrow>
   row_date_str hs row = py_str (row ! (dc - 1))"
  by (simp add: row_date_str_def row_data_header_map)

section \<open>The requests on a ledger that exists\<close>

lemma post_update:
  assumes "isdigit year" and "sheets fs year = Some ws"
    and "find_row (header ws) date 2 (body ws) = Some (idx, row)" and "us \<noteq> []"
  shows "manage_tracking_by_date year date (Post us) fs =
     (case write_row (header_map (header ws)) us row of
        Inl e \<Rightarrow> ((500, None), fs)
      | Inr row' \<Rightarrow>
          ((200, None), fs\<lparr>sheets := (sheets fs)(year \<mapsto> ws\<lparr>body := (body ws)[idx - 2 := row']\<rparr>)\<rparr>))"
proof -
  from find_row_Some [OF assms(3)] have i: "2 \<le> idx" "idx - 2 < length (body ws)"
    "body ws ! (idx - 2) = row" by simp_all
  from i(1) have idx: "idx = Suc (Suc (idx - 2))" by simp
  have "write_updates (header_map (header ws)) idx us ws =
     (case write_row (header_map (header ws)) us row of
        Inl e \<Rightarrow> Inl e
      | Inr row' \<Rightarrow> Inr (ws\<lparr>body := (body ws)[idx - 2 := row']\<rparr>))"
    using write_updates_existing [OF i(2), of "header_map (header ws)" us] i(3) idx by simp
  with assms show ?thesis
    by (simp add: manage_tracking_by_date_def Let_def split: sum.splits)
qed

lemma post_append:
  assumes "isdigit year" and "sheets fs year = Some ws"
    and "find_row (header ws) date 2 (body ws) = None" and "us \<noteq> []"
    and "header_map (header ws) (CStr ''date'') = Some dc" and sd: "stored_as_given date"
  shows "manage_tracking_by_date year date (Post us) fs =
     (case write_row (header_map (header ws)) us ((blank_row ws)[dc - 1 := CStr date]) of
        Inl e \<Rightarrow> ((500, None), fs)
      | Inr row' \<Rightarrow>
          ((201, None), fs\<lparr>sheets := (sheets fs)(year \<mapsto> ws\<lparr>body := body ws @ [row']\<rparr>)\<rparr>))"
proof -
  let ?row0 = "(blank_row ws)[dc - 1 := CStr date]"
  let ?ws1 = "ws\<lparr>body := body ws @ [?row0]\<rparr>"
  have d: "ws_cell ws (max_row ws + 1) dc (JStr date) = Inr ?ws1"
    using ws_cell_append [OF sd, of ws dc] by simp
  have l: "length (body ws) < length (body ?ws1)" by simp
  have n: "max_row ws + 1 = Suc (Suc (length (body ws)))" by (simp add: max_row_def)
  have "write_updates (header_map (header ws)) (max_row ws + 1) us ?ws1 =
     (case write_row (header_map (header ws)) us ?row0 of
        Inl e \<Rightarrow> Inl e
      | Inr row' \<Rightarrow> Inr (ws\<lparr>body := body ws @ [row']\<rparr>))"
    using write_updates_existing [OF l, of "header_map (header ws)" us] unfolding n
    by (simp split: sum.splits)
  with assms(1-5) d show ?thesis
    by (simp add: manage_tracking_by_date_def Let_def split: sum.splits)
qed

lemma get_found:
  assumes "isdigit year" and "sheets fs year = Some ws"
    and "find_row (header ws) date 2 (body ws) = Some (idx, row)"
    and "header ws \<noteq> []" and "row \<noteq> []"
  shows "manage_tracking_by_date year date Get fs = ((200, Some (zip (header ws) row)), fs)"
  using assms by (cases "header ws"; cases row) (simp_all add: manage_tracking_by_date_def Let_def)

lemma get_missing:
  assumes "sheets fs year = Some ws" and "find_row (header ws) date 2 (body ws) = None"
  shows "fst (fst (manage_tracking_by_date year date Get fs)) \<noteq> 200"
  using assms by (simp add: manage_tracking_by_date_def Let_def)

lemma get_keeps_store: "snd (manage_tracking_by_date year date Get fs) = fs"
  by (simp add: manage_tracking_by_date_def Let_def split: option.splits prod.splits)

lemma slot_value_ledger:
  assumes "isdigit year" and "sheets fs year = Some ws" and "well_formed ws"
    and "CStr ''date'' \<in> set (header ws)"
  shows "slot_value fs year date k =
     (case find_row (header ws) date 2 (body ws) of
        None \<Rightarrow> None
      | Some (idx, row) \<Rightarrow> row_data (header ws) row (CStr k))"
proof (cases "find_row (header ws) date 2 (body ws)")
  case None
  with get_missing [OF assms(2) None] show ?thesis by (simp add: slot_value_def Let_def)
next
  case (Some p)
  obtain idx row where p: "p = (idx, row)" by (cases p)
  from find_row_Some [OF Some [unfolded p]] have "row \<in> set (body ws)"
    by (metis nth_mem)
  with assms(3) have len: "length row = length (header ws)"
    by (simp add: well_formed_def list_all_iff)
  from assms(4) have ne: "header ws \<noteq> []" by auto
  with len have "row \<noteq> []" by auto
  from get_found [OF assms(1,2) Some [unfolded p] ne this] Some p show ?thesis
    by (simp add: slot_value_def Let_def row_data_def)
qed

section \<open>Looking a date up after a write\<close>

lemma find_row_same_dates:
  "map (row_date_str hs) rows' = map (row_date_str hs) rows \<Longrightarrow>
   find_row hs d idx rows' =
     map_option (\<lambda>(j, r). (j, rows' ! (j - idx))) (find_row hs d idx rows)"
proof (induction rows arbitrary: rows' idx)
  case Nil
  then show ?case by simp
next
  case (Cons r rows)
  then obtain r' rs' where rows': "rows' = r' # rs'" and hd: "row_date_str hs r' = row_date_str hs r"
    and tl: "map (row_date_str hs) rs' = map (row_date_str hs) rows"
    by (cases rows') auto
  show ?case
  proof (cases "row_date_str hs r = d")
    case True
    with hd show ?thesis by (simp add: rows')
  next
    case False
    have "find_row hs d (Suc idx) rs' =
        map_option (\<lambda>(j, r). (j, rs' ! (j - Suc idx))) (find_row hs d (Suc idx) rows)"
      by (rule Cons.IH [OF tl])
    moreover have "\<And>j x. find_row hs d (Suc idx) rows = Some (j, x) \<Longrightarrow>
        (r' # rs') ! (j - idx) = rs' ! (j - Suc idx)"
    proof -
      fix j x assume "find_row hs d (Suc idx) rows = Some (j, x)"
      from find_row_Some [OF this] have "Suc idx \<le> j" by simp
      then have "j - idx = Suc (j - Suc idx)" by simp
      then show "(r' # rs') ! (j - idx) = rs' ! (j - Suc idx)" by simp
    qed
    ultimately show ?thesis using False hd
      by (cases "find_row hs d (Suc idx) rows") (auto simp: rows')
  qed
qed

lemma find_row_snoc:
  "find_row hs d idx (rows @ [r]) =
     (case find_row hs d idx rows of
        Some x \<Rightarrow> Some x
      | None \<Rightarrow> if row_date_str hs r = d then Some (idx + length rows, r) else None)"
  by (induction rows arbitrary: idx) (auto split: option.splits)

lemma key_col_not_date:
  assumes "header_map hs (CStr ''date'') = Some dc" and "k \<noteq> ''date''"
    and "header_map hs (CStr k) = Some c"
  shows "c \<noteq> Suc (dc - 1) \<and> c \<noteq> 0"
proof -
  from header_map_bound [OF assms(1)] have d: "1 \<le> dc" "hs ! (dc - 1) = CStr ''date''" by simp_all
  from header_map_bound [OF assms(3)] have c: "1 \<le> c" "hs ! (c - 1) = CStr k" by simp_all
  have "c \<noteq> dc" using d(2) c(2) assms(2) by auto
  with d(1) c(1) show ?thesis by simp
qed

lemma write_row_keeps_date:
  assumes "write_row (header_map hs) us row = Inr row'" and "''date'' \<notin> fst ` set us"
    and "header_map hs (CStr ''date'') = Some dc"
  shows "row' ! (dc - 1) = row ! (dc - 1)"
proof (rule write_row_frame [OF assms(1)])
  fix k c assume k: "k \<in> fst ` set us" and c: "header_map hs (CStr k) = Some c"
  from k assms(2) have "k \<noteq> ''date''" by blast
  from key_col_not_date [OF assms(3) this c]
  show "c \<noteq> Suc (dc - 1) \<and> c \<noteq> 0" .
qed

lemma write_row_keeps_date_str:
  assumes "write_row (header_map hs) us row = Inr row'" and "''date'' \<notin> fst ` set us"
    and "header_map hs (CStr ''date'') = Some dc" and "length row = length hs"
  shows "row_date_str hs row' = row_date_str hs row"
  using write_row_keeps_date [OF assms(1-3)] write_row_length [OF assms(1)] assms(3,4)
  by (simp add: row_date_str_col)

lemma ledger_date_col:
  "ledger fs year ws \<Longrightarrow> \<exists>dc. header_map (header ws) (CStr ''date'') = Some dc"
  using header_map_None [of "header ws" "CStr ''date''"] by (auto simp: ledger_def)

lemma ledger_row_length:
  "ledger fs year ws \<Longrightarrow> i < length (body ws) \<Longrightarrow> length (body ws ! i) = length (header ws)"
  by (simp add: ledger_def well_formed_def list_all_length)

lemma dated_row:
  assumes "header_map hs (CStr ''date'') = Some dc"
  shows "row_date_str hs ((replicate (length hs) CNone)[dc - 1 := CStr date]) = date"
proof -
  from header_map_bound [OF assms] have "dc - 1 < length hs" by auto
  with assms show ?thesis by (simp add: row_date_str_col)
qed

section \<open>One POST on a ledger, without a date key in the payload\<close>

lemma post_update_ledger:
  assumes L: "ledger fs year ws" and ne: "us \<noteq> []" and nd: "''date'' \<notin> fst ` set us"
    and f: "find_row (header ws) date 2 (body ws) = Some (idx, row)"
    and w: "write_row (header_map (header ws)) us row = Inr row'"
  defines "ws' \<equiv> ws\<lparr>body := (body ws)[idx - 2 := row']\<rparr>"
  shows "manage_tracking_by_date year date (Post us) fs =
           ((200, None), fs\<lparr>sheets := (sheets fs)(year \<mapsto> ws')\<rparr>)"
    and "ledger (fs\<lparr>sheets := (sheets fs)(year \<mapsto> ws')\<rparr>) year ws'"
    and "find_row (header ws) d 2 (body ws') =
           map_option (\<lambda>(j, r). (j, if j = idx then row' else r)) (find_row (header ws) d 2 (body ws))"
proof -
  from L have dg: "isdigit year" and sh: "sheets fs year = Some ws" and wf: "well_formed ws"
    by (simp_all add: ledger_def)
  from ledger_date_col [OF L] obtain dc where dc: "header_map (header ws) (CStr ''date'') = Some dc" ..
  from find_row_Some [OF f] have i: "2 \<le> idx" "idx - 2 < length (body ws)"
    "body ws ! (idx - 2) = row" by simp_all
  have len: "length row = length (header ws)" using ledger_row_length [OF L i(2)] i(3) by simp
  have len': "length row' = length (header ws)" using write_row_length [OF w] len by simp
  show "manage_tracking_by_date year date (Post us) fs =
           ((200, None), fs\<lparr>sheets := (sheets fs)(year \<mapsto> ws')\<rparr>)"
    using post_update [OF dg sh f ne] w by (simp add: ws'_def)
  have "list_all (\<lambda>r. length r = length (header ws)) ((body ws)[idx - 2 := row'])"
    using wf len' set_update_subset_insert [of "body ws" "idx - 2" row']
    by (auto simp: well_formed_def list_all_iff)
  with L show "ledger (fs\<lparr>sheets := (sheets fs)(year \<mapsto> ws')\<rparr>) year ws'"
    by (simp add: ledger_def ws'_def well_formed_def)
  have ds: "row_date_str (header ws) row' = row_date_str (header ws) row"
    by (rule write_row_keeps_date_str [OF w nd dc len])
  have same: "map (row_date_str (header ws)) (body ws') = map (row_date_str (header ws)) (body ws)"
    using ds i by (simp add: ws'_def map_update list_update_same_conv)
  have "find_row (header ws) d 2 (body ws') =
      map_option (\<lambda>(j, r). (j, body ws' ! (j - 2))) (find_row (header ws) d 2 (body ws))"
    by (rule find_row_same_dates [OF same])
  moreover have "\<And>j r. find_row (header ws) d 2 (body ws) = Some (j, r) \<Longrightarrow>
      body ws' ! (j - 2) = (if j = idx then row' else r)"
  proof -
    fix j r assume "find_row (header ws) d 2 (body ws) = Some (j, r)"
    from find_row_Some [OF this] have j: "2 \<le> j" "j - 2 < length (body ws)" "body ws ! (j - 2) = r"
      by simp_all
    show "body ws' ! (j - 2) = (if j = idx then row' else r)"
    proof (cases "j = idx")
      case True
      with i show ?thesis by (simp add: ws'_def)
    next
      case False
      with i(1) j(1) have "j - 2 \<noteq> idx - 2" by arith
      with j show ?thesis using False by (simp add: ws'_def)
    qed
  qed
  ultimately show "find_row (header ws) d 2 (body ws') =
      map_option (\<lambda>(j, r). (j, if j = idx then row' else r)) (find_row (header ws) d 2 (body ws))"
    by (cases "find_row (header ws) d 2 (body ws)") auto
qed

lemma post_append_ledger:
  assumes L: "ledger fs year ws" and ne: "us \<noteq> []" and nd: "''date'' \<notin> fst ` set us"
    and f: "find_row (header ws) date 2 (body ws) = None"
    and dc: "header_map (header ws) (CStr ''date'') = Some dc"
    and w: "write_row (header_map (header ws)) us ((blank_row ws)[dc - 1 := CStr date]) = Inr row'"
    and sd: "stored_as_given date"
  defines "ws' \<equiv> ws\<lparr>body := body ws @ [row']\<rparr>"
  shows "manage_tracking_by_date year date (Post us) fs =
           ((201, None), fs\<lparr>sheets := (sheets fs)(year \<mapsto> ws')\<rparr>)"
    and "ledger (fs\<lparr>sheets := (sheets fs)(year \<mapsto> ws')\<rparr>) year ws'"
    and "find_row (header ws) d 2 (body ws') =
           (case find_row (header ws) d 2 (body ws) of
              Some x \<Rightarrow> Some x
            | None \<Rightarrow> if d = date then Some (length (body ws) + 2, row') else None)"
proof -
  from L have dg: "isdigit year" and sh: "sheets fs year = Some ws" and wf: "well_formed ws"
    by (simp_all add: ledger_def)
  let ?row0 = "(blank_row ws)[dc - 1 := CStr date]"
  have len0: "length ?row0 = length (header ws)" by (simp add: blank_row_def)
  have len': "length row' = length (header ws)" using write_row_length [OF w] len0 by simp
  show "manage_tracking_by_date year date (Post us) fs =
           ((201, None), fs\<lparr>sheets := (sheets fs)(year \<mapsto> ws')\<rparr>)"
    using post_append [OF dg sh f ne dc sd] w by (simp add: ws'_def)
  from L len' show "ledger (fs\<lparr>sheets := (sheets fs)(year \<mapsto> ws')\<rparr>) year ws'"
    by (simp add: ledger_def ws'_def well_formed_def)
  have "row_date_str (header ws) row' = row_date_str (header ws) ?row0"
    by (rule write_row_keeps_date_str [OF w nd dc len0])
  also have "\<dots> = date" using dated_row [OF dc] by (simp add: blank_row_def)
  finally have ds: "row_date_str (header ws) row' = date" .
  show "find_row (header ws) d 2 (body ws') =
           (case find_row (header ws) d 2 (body ws) of
              Some x \<Rightarrow> Some x
            | None \<Rightarrow> if d = date then Some (length (body ws) + 2, row') else None)"
    using ds by (auto simp: ws'_def find_row_snoc split: option.splits)
qed

lemma post_empty:
  "manage_tracking_by_date year date (Post []) fs = ((400, None), fs) \<or>
   manage_tracking_by_date year date (Post []) fs = ((404, None), fs)"
  by (simp add: manage_tracking_by_date_def Let_def split: option.splits)

lemma store_sheet_same: "sheets fs year = Some ws \<Longrightarrow> fs\<lparr>sheets := (sheets fs)(year \<mapsto> ws)\<rparr> = fs"
  by (simp add: fun_upd_idem)

lemma key_cols_differ:
  assumes "header_map hs (CStr a) = Some ca" and "header_map hs (CStr b) = Some cb" and "a \<noteq> b"
  shows "ca \<noteq> Suc (cb - 1) \<and> ca \<noteq> 0"
proof -
  from header_map_bound [OF assms(1)] have a: "1 \<le> ca" "hs ! (ca - 1) = CStr a" by simp_all
  from header_map_bound [OF assms(2)] have b: "1 \<le> cb" "hs ! (cb - 1) = CStr b" by simp_all
  have "ca \<noteq> cb" using a(2) b(2) assms(3) by auto
  with a(1) b(1) show ?thesis by simp
qed

lemma write_row_keeps_slot:
  assumes w: "write_row (header_map hs) us row = Inr row'" and nb: "b \<notin> fst ` set us"
    and len: "length row = length hs"
  shows "row_data hs row' (CStr b) = row_data hs row (CStr b)"
proof (cases "header_map hs (CStr b)")
  case None
  with len write_row_length [OF w] show ?thesis by (simp add: row_data_header_map)
next
  case (Some cb)
  have "row' ! (cb - 1) = row ! (cb - 1)"
  proof (rule write_row_frame [OF w])
    fix k c assume k: "k \<in> fst ` set us" and c: "header_map hs (CStr k) = Some c"
    from k nb have "k \<noteq> b" by blast
    from key_cols_differ [OF c Some this] show "c \<noteq> Suc (cb - 1) \<and> c \<noteq> 0" .
  qed
  with Some len write_row_length [OF w] show ?thesis by (simp add: row_data_header_map)
qed

lemma write_row_single:
  assumes "header_map hs (CStr a) = Some ca" and "length row = length hs"
    and "set_value CNone (JStr x) = Inr v"
  shows "write_row (header_map hs) [(a, JStr x)] row = Inr (row[ca - 1 := v])"
    and "row_data hs (row[ca - 1 := v]) (CStr a) = Some v"
proof -
  from assms(3) have "set_value (row ! (ca - 1)) (JStr x) = Inr v"
    by (simp only: set_value_string_old [of "row ! (ca - 1)"])
  then show "write_row (header_map hs) [(a, JStr x)] row = Inr (row[ca - 1 := v])"
    using assms(1) by (simp add: set_cell_def del: set_value.simps)
  from header_map_bound [OF assms(1)] assms(2) have "ca - 1 < length row" by auto
  with assms show "row_data hs (row[ca - 1 := v]) (CStr a) = Some v"
    by (simp add: row_data_header_map del: set_value.simps)
qed

lemma write_row_single_refused:
  assumes "header_map hs (CStr a) = Some ca" and "set_value CNone (JStr x) = Inl e"
  shows "write_row (header_map hs) [(a, JStr x)] row = Inl e"
proof -
  from assms(2) have "set_value (row ! (ca - 1)) (JStr x) = Inl e"
    by (simp only: set_value_string_old [of "row ! (ca - 1)"])
  then show ?thesis using assms(1) by (simp add: set_cell_def del: set_value.simps)
qed

lemma slot_value_found:
  assumes "ledger fs year ws" and "find_row (header ws) date 2 (body ws) = Some (idx, row)"
  shows "slot_value fs year date k = row_data (header ws) row (CStr k)"
  using assms slot_value_ledger [of year fs ws date k] by (simp add: ledger_def)

lemma slot_value_missing:
  assumes "ledger fs year ws" and "find_row (header ws) date 2 (body ws) = None"
  shows "slot_value fs year date k = None"
  using assms slot_value_ledger [of year fs ws date k] by (simp add: ledger_def)

lemma example_ledger: "ledger example_store ''2026'' example_sheet"
  by (simp add: ledger_def example_store_def example_sheet_def isdigit_def is_digit_def
      well_formed_def headers_eq)

lemma write_updates_filter:
  "write_updates (header_map hs) r us ws =
   write_updates (header_map hs) r (filter (\<lambda>(k, v). CStr k \<in> set hs) us) ws"
proof (induction us arbitrary: ws)
  case Nil
  then show ?case by simp
next
  case (Cons u us)
  obtain k v where u: "u = (k, v)" by (cases u)
  show ?case
  proof (cases "CStr k \<in> set hs")
    case True
    then obtain c where "header_map hs (CStr k) = Some c"
      using header_map_None [of hs "CStr k"] by auto
    with True Cons.IH show ?thesis by (simp add: u split: sum.splits)
  next
    case False
    then have "header_map hs (CStr k) = None" by (simp add: header_map_None)
    with False Cons.IH show ?thesis by (simp add: u)
  qed
qed

section \<open>Filled cells stay filled\<close>

lemma keeps_filled_nth:
  "keeps_filled ws ws' \<longleftrightarrow>
     length (body ws) \<le> length (body ws') \<and>
     (\<forall>i < length (body ws). length (body ws' ! i) = length (body ws ! i) \<and>
        (\<forall>j < length (body ws ! i). truthy (body ws ! i ! j) \<longrightarrow> truthy (body ws' ! i ! j)))"
  by (auto simp: keeps_filled_def list_all2_conv_all_nth)

lemma keeps_filled_refl: "keeps_filled ws ws"
  by (simp add: keeps_filled_nth)

lemma keeps_filled_trans: "keeps_filled a b \<Longrightarrow> keeps_filled b c \<Longrightarrow> keeps_filled a c"
  unfolding keeps_filled_nth by (metis (no_types, lifting) le_trans less_le_trans)

lemma set_value_keeps:
  "not_emptying v \<Longrightarrow> set_value old v = Inr x \<Longrightarrow> truthy old \<Longrightarrow> truthy x"
proof (cases v)
  case (JStr s)
  assume "not_emptying v" and "set_value old v = Inr x"
  with JStr set_value_string_filled [of s old x] show ?thesis by simp
qed auto

lemma ws_cell_keeps:
  assumes v: "not_emptying v \<or> length (body ws) \<le> r - 2" and w: "ws_cell ws r c v = Inr ws'"
  shows "keeps_filled ws ws'"
proof (cases "r - 2 < length (body ws)")
  case True
  with v have v: "not_emptying v" by simp
  from True w obtain x where x: "set_value (body ws ! (r - 2) ! (c - 1)) v = Inr x"
    and ws': "ws' = ws\<lparr>body := (body ws)[r - 2 := (body ws ! (r - 2))[c - 1 := x]]\<rparr>"
    by (auto simp: ws_cell_def Let_def split: sum.splits)
  show ?thesis
    unfolding keeps_filled_nth
  proof (intro conjI allI impI)
    show "length (body ws) \<le> length (body ws')" by (simp add: ws')
  next
    fix i assume "i < length (body ws)"
    then show "length (body ws' ! i) = length (body ws ! i)"
      by (cases "i = r - 2") (simp_all add: ws')
  next
    fix i j assume i: "i < length (body ws)" and j: "j < length (body ws ! i)"
      and t: "truthy (body ws ! i ! j)"
    show "truthy (body ws' ! i ! j)"
    proof (cases "i = r - 2 \<and> j = c - 1")
      case True
      with i j t set_value_keeps [OF v x] show ?thesis by (simp add: ws')
    next
      case False
      with i j t show ?thesis by (cases "i = r - 2") (auto simp: ws')
    qed
  qed
next
  case False
  with w obtain rows where ws': "body ws' = rows" and pre: "take (length (body ws)) rows = body ws"
    and len: "length (body ws) \<le> length rows"
    by (auto simp: ws_cell_def Let_def split: sum.splits)
  have "\<And>i. i < length (body ws) \<Longrightarrow> body ws' ! i = body ws ! i"
    using pre ws' by (metis nth_take)
  with len ws' show ?thesis by (simp add: keeps_filled_nth)
qed

lemma write_updates_keeps:
  "list_all (\<lambda>(k, v). not_emptying v) us \<Longrightarrow> write_updates hm r us ws = Inr ws' \<Longrightarrow>
   keeps_filled ws ws'"
proof (induction us arbitrary: ws)
  case Nil
  then show ?case by (simp add: keeps_filled_refl)
next
  case (Cons u us)
  obtain k v where u: "u = (k, v)" by (cases u)
  from Cons.prems(1) have v: "not_emptying v" and rest: "list_all (\<lambda>(k, v). not_emptying v) us"
    by (simp_all add: u)
  show ?case
  proof (cases "hm (CStr k)")
    case None
    with Cons.prems(2) Cons.IH [OF rest] show ?thesis by (simp add: u)
  next
    case (Some c)
    with Cons.prems(2) obtain ws1 where c1: "ws_cell ws r c v = Inr ws1"
      and w: "write_updates hm r us ws1 = Inr ws'"
      by (auto simp: u split: sum.splits)
    from v have "not_emptying v \<or> length (body ws) \<le> r - 2" by simp
    from keeps_filled_trans [OF ws_cell_keeps [OF this c1] Cons.IH [OF rest w]] show ?thesis .
  qed
qed

lemma post_shape:
  "snd (manage_tracking_by_date year date (Post us) fs) = fs \<or>
   (\<exists>ws0 ws1 r. sheets fs year = Some ws0 \<and>
      snd (manage_tracking_by_date year date (Post us) fs) = fs\<lparr>sheets := (sheets fs)(year \<mapsto> ws1)\<rparr> \<and>
      (write_updates (header_map (header ws0)) r us ws0 = Inr ws1 \<or>
       (\<exists>c wsd. ws_cell ws0 (max_row ws0 + 1) c (JStr date) = Inr wsd \<and>
          write_updates (header_map (header ws0)) r us wsd = Inr ws1)))"
proof (cases "isdigit year \<and> us \<noteq> []")
  case False
  then show ?thesis
    by (auto simp: manage_tracking_by_date_def Let_def split: option.splits)
next
  case True
  show ?thesis
  proof (cases "sheets fs year")
    case None
    with True show ?thesis by (simp add: manage_tracking_by_date_def)
  next
    case (Some ws0)
    show ?thesis
    proof (cases "find_row (header ws0) date 2 (body ws0)")
      case (Some p)
      obtain idx row where p: "p = (idx, row)" by (cases p)
      with True \<open>sheets fs year = Some ws0\<close> Some show ?thesis
        by (cases "write_updates (header_map (header ws0)) idx us ws0")
          (auto simp: manage_tracking_by_date_def Let_def)
    next
      case None
      show ?thesis
      proof (cases "header_map (header ws0) (CStr ''date'')")
        case hn: None
        with True \<open>sheets fs year = Some ws0\<close> None show ?thesis
          by (cases "write_updates (header_map (header ws0)) (max_row ws0 + 1) us ws0")
            (auto simp: manage_tracking_by_date_def Let_def)
      next
        case (Some c)
        show ?thesis
        proof (cases "ws_cell ws0 (max_row ws0 + 1) c (JStr date)")
          case (Inl e)
          with True \<open>sheets fs year = Some ws0\<close> None Some show ?thesis
            by (simp add: manage_tracking_by_date_def Let_def)
        next
          case (Inr wsd)
          with True \<open>sheets fs year = Some ws0\<close> None Some show ?thesis
            by (cases "write_updates (header_map (header ws0)) (max_row ws0 + 1) us wsd")
              (auto simp: manage_tracking_by_date_def Let_def)
        qed
      qed
    qed
  qed
qed

lemma post_keeps:
  assumes us: "list_all (\<lambda>(k, v). not_emptying v) us" and sh: "sheets fs y = Some ws"
  shows "\<exists>ws'. sheets (snd (manage_tracking_by_date year date (Post us) fs)) y = Some ws' \<and>
           keeps_filled ws ws'"
proof -
  from post_shape [of year date us fs]
  consider (same) "snd (manage_tracking_by_date year date (Post us) fs) = fs"
    | (upd) ws0 ws1 r where "sheets fs year = Some ws0"
        "snd (manage_tracking_by_date year date (Post us) fs) = fs\<lparr>sheets := (sheets fs)(year \<mapsto> ws1)\<rparr>"
        "write_updates (header_map (header ws0)) r us ws0 = Inr ws1 \<or>
         (\<exists>c wsd. ws_cell ws0 (max_row ws0 + 1) c (JStr date) = Inr wsd \<and>
            write_updates (header_map (header ws0)) r us wsd = Inr ws1)"
    by blast
  then show ?thesis
  proof cases
    case same
    with sh show ?thesis by (simp add: keeps_filled_refl)
  next
    case upd
    have k: "keeps_filled ws0 ws1"
    proof -
      from upd(3) show ?thesis
      proof
        assume "write_updates (header_map (header ws0)) r us ws0 = Inr ws1"
        from write_updates_keeps [OF us this] show ?thesis .
      next
        assume "\<exists>c wsd. ws_cell ws0 (max_row ws0 + 1) c (JStr date) = Inr wsd \<and>
            write_updates (header_map (header ws0)) r us wsd = Inr ws1"
        then obtain c wsd where d: "ws_cell ws0 (max_row ws0 + 1) c (JStr date) = Inr wsd"
          and w: "write_updates (header_map (header ws0)) r us wsd = Inr ws1" by blast
        have "not_emptying (JStr date) \<or> length (body ws0) \<le> max_row ws0 + 1 - 2"
          by (simp add: max_row_def)
        from keeps_filled_trans [OF ws_cell_keeps [OF this d] write_updates_keeps [OF us w]]
        show ?thesis .
      qed
    qed
    show ?thesis
    proof (cases "y = year")
      case True
      with sh upd k show ?thesis by simp
    next
      case False
      with sh upd show ?thesis by (simp add: keeps_filled_refl)
    qed
  qed
qed

lemma run_tasks_keeps:
  "sheets fs y = Some ws \<Longrightarrow>
   \<exists>ws'. sheets (fst (run_tasks year download date status tasks (fs, invoked))) y = Some ws' \<and>
     keeps_filled ws ws'"
proof (induction tasks arbitrary: fs invoked ws)
  case Nil
  then show ?case by (simp add: keeps_filled_refl)
next
  case (Cons k tasks)
  show ?case
  proof (cases "\<not> (case status (CStr k) of None \<Rightarrow> False | Some v \<Rightarrow> truthy v) \<and>
      (\<exists>p. download k date = Some p \<and> p \<noteq> [])")
    case False
    with Cons.IH [OF Cons.prems] show ?thesis by (auto split: option.splits)
  next
    case True
    then obtain p where p: "download k date = Some p" "p \<noteq> []" by blast
    have "list_all (\<lambda>(k, v). not_emptying v) [(k, JStr p)]" using p(2) by simp
    from post_keeps [OF this Cons.prems, of "str_int year" date]
    obtain ws1 where s1: "sheets (update_tracking_status year date k p fs) y = Some ws1"
      and k1: "keeps_filled ws ws1" by (auto simp: update_tracking_status_def)
    from Cons.IH [OF s1] obtain ws' where
      "sheets (fst (run_tasks year download date status tasks
          (update_tracking_status year date k p fs, invoked @ [k]))) y = Some ws'"
      "keeps_filled ws1 ws'" by blast
    with True p k1 show ?thesis by (auto intro: keeps_filled_trans)
  qed
qed

section \<open>The date column\<close>

lemma row_date_str_cong:
  "row_data hs r' (CStr ''date'') = row_data hs r (CStr ''date'') \<Longrightarrow>
   row_date_str hs r' = row_date_str hs r"
  by (simp add: row_date_str_def)

lemma post_keeps_dates:
  assumes L: "ledger fs year ws" and nd: "''date'' \<notin> fst ` set us"
    and sd: "stored_as_given date"
  shows "\<exists>ws'. ledger (snd (manage_tracking_by_date year date (Post us) fs)) year ws' \<and>
     header ws' = header ws \<and> length (body ws) \<le> length (body ws') \<and>
     take (length (body ws)) (date_column ws') = date_column ws \<and>
     (distinct (date_strings ws) \<longrightarrow> distinct (date_strings ws'))"
proof -
  from L have dg: "isdigit year" and sh: "sheets fs year = Some ws" by (simp_all add: ledger_def)
  from ledger_date_col [OF L] obtain dc where dc: "header_map (header ws) (CStr ''date'') = Some dc" ..
  have same: "snd (manage_tracking_by_date year date (Post us) fs) = fs \<Longrightarrow> ?thesis"
    using L by (intro exI [of _ ws]) (simp add: date_column_def)
  show ?thesis
  proof (cases "us = []")
    case True
    with post_empty [of year date fs] same show ?thesis by auto
  next
    case ne: False
    show ?thesis
    proof (cases "find_row (header ws) date 2 (body ws)")
      case None
      let ?row0 = "(blank_row ws)[dc - 1 := CStr date]"
      show ?thesis
      proof (cases "write_row (header_map (header ws)) us ?row0")
        case (Inl e)
        with post_append [OF dg sh None ne dc sd] same show ?thesis by simp
      next
        case (Inr row')
        note a = post_append_ledger [OF L ne nd None dc Inr sd]
        have len0: "length ?row0 = length (header ws)" by (simp add: blank_row_def)
        have "row_date_str (header ws) row' = row_date_str (header ws) ?row0"
          by (rule write_row_keeps_date_str [OF Inr nd dc len0])
        also have "\<dots> = date" using dated_row [OF dc] by (simp add: blank_row_def)
        finally have ds: "row_date_str (header ws) row' = date" .
        from None have "date \<notin> set (date_strings ws)"
          by (auto simp: find_row_None date_strings_def)
        with ds have "distinct (date_strings ws) \<longrightarrow>
            distinct (date_strings (ws\<lparr>body := body ws @ [row']\<rparr>))"
          by (simp add: date_strings_def)
        moreover have "take (length (body ws)) (date_column (ws\<lparr>body := body ws @ [row']\<rparr>))
            = date_column ws"
          by (simp add: date_column_def)
        ultimately show ?thesis using a(1,2)
          by (intro exI [of _ "ws\<lparr>body := body ws @ [row']\<rparr>"]) simp
      qed
    next
      case (Some p)
      obtain idx row where p: "p = (idx, row)" by (cases p)
      note f = Some [unfolded p]
      from find_row_Some [OF f] have i: "idx - 2 < length (body ws)" "body ws ! (idx - 2) = row"
        by simp_all
      have len: "length row = length (header ws)" using ledger_row_length [OF L i(1)] i(2) by simp
      show ?thesis
      proof (cases "write_row (header_map (header ws)) us row")
        case (Inl e)
        with post_update [OF dg sh f ne] same show ?thesis by simp
      next
        case (Inr row')
        note a = post_update_ledger [OF L ne nd f Inr]
        have rd: "row_data (header ws) row' (CStr ''date'') = row_data (header ws) row (CStr ''date'')"
          by (rule write_row_keeps_slot [OF Inr nd len])
        have c: "date_column (ws\<lparr>body := (body ws)[idx - 2 := row']\<rparr>) = date_column ws"
          using rd i by (simp add: date_column_def map_update list_update_same_conv)
        have s: "date_strings (ws\<lparr>body := (body ws)[idx - 2 := row']\<rparr>) = date_strings ws"
          using row_date_str_cong [OF rd] i
          by (simp add: date_strings_def map_update list_update_same_conv)
        have "length (date_column ws) = length (body ws)" by (simp add: date_column_def)
        with c s a(1,2) show ?thesis
          by (intro exI [of _ "ws\<lparr>body := (body ws)[idx - 2 := row']\<rparr>"]) simp
      qed
    qed
  qed
qed

section \<open>A POST of one slot\<close>

lemma post_single:
  assumes L: "ledger fs year ws" and k: "CStr key \<in> set (header ws)" and kd: "key \<noteq> ''date''"
    and sd: "stored_as_given date"
  shows "\<exists>ws'. ledger (snd (manage_tracking_by_date year date (Post [(key, JStr x)]) fs)) year ws' \<and>
           header ws' = header ws"
    and "stored_as_given x \<Longrightarrow>
         slot_value (snd (manage_tracking_by_date year date (Post [(key, JStr x)]) fs)) year date key
           = Some (CStr x)"
    and "k' \<noteq> key \<Longrightarrow> k' \<noteq> ''date'' \<Longrightarrow>
         filled (snd (manage_tracking_by_date year date (Post [(key, JStr x)]) fs)) year date k'
           = filled fs year date k' \<and>
         (filled fs year date k' \<longrightarrow>
            slot_value (snd (manage_tracking_by_date year date (Post [(key, JStr x)]) fs)) year date k'
              = slot_value fs year date k')"
proof -
  let ?fs' = "snd (manage_tracking_by_date year date (Post [(key, JStr x)]) fs)"
  from L have dg: "isdigit year" and sh: "sheets fs year = Some ws" by (simp_all add: ledger_def)
  from k obtain ck where ck: "header_map (header ws) (CStr key) = Some ck"
    using header_map_None [of "header ws" "CStr key"] by auto
  from ledger_date_col [OF L] obtain dc where dc: "header_map (header ws) (CStr ''date'') = Some dc" ..
  have ne: "[(key, JStr x)] \<noteq> []" by simp
  have nd: "''date'' \<notin> fst ` set [(key, JStr x)]" using kd by simp
  have all: "(\<exists>ws'. ledger ?fs' year ws' \<and> header ws' = header ws) \<and>
      (stored_as_given x \<longrightarrow> slot_value ?fs' year date key = Some (CStr x)) \<and>
      (k' \<noteq> key \<longrightarrow> k' \<noteq> ''date'' \<longrightarrow>
         filled ?fs' year date k' = filled fs year date k' \<and>
         (filled fs year date k' \<longrightarrow> slot_value ?fs' year date k' = slot_value fs year date k'))"
  proof (cases "set_value CNone (JStr x)")
    case (Inl e)
    have ns: "\<not> stored_as_given x"
      using Inl set_value_stored [of x CNone] by auto
    have "?fs' = fs"
    proof (cases "find_row (header ws) date 2 (body ws)")
      case None
      from post_append [OF dg sh None ne dc sd] write_row_single_refused [OF ck Inl]
      show ?thesis by simp
    next
      case (Some p)
      obtain idx row where p: "p = (idx, row)" by (cases p)
      from post_update [OF dg sh Some [unfolded p] ne] write_row_single_refused [OF ck Inl]
      show ?thesis by simp
    qed
    with L ns show ?thesis by auto
  next
    case (Inr v)
    have vx: "stored_as_given x \<Longrightarrow> v = CStr x"
      using Inr set_value_stored [of x CNone] by simp
    show ?thesis
    proof (cases "find_row (header ws) date 2 (body ws)")
      case (Some p)
      obtain idx row where p: "p = (idx, row)" by (cases p)
      note f = Some [unfolded p]
      from find_row_Some [OF f] have i: "idx - 2 < length (body ws)" "body ws ! (idx - 2) = row"
        by simp_all
      have len: "length row = length (header ws)" using ledger_row_length [OF L i(1)] i(2) by simp
      note s = write_row_single [OF ck len Inr]
      note q = post_update_ledger [OF L ne nd f s(1)]
      let ?ws' = "ws\<lparr>body := (body ws)[idx - 2 := row[ck - 1 := v]]\<rparr>"
      have f': "find_row (header ?ws') date 2 (body ?ws') = Some (idx, row[ck - 1 := v])"
        using q(3) [of date] f by simp
      have sv: "\<And>b. slot_value ?fs' year date b = row_data (header ws) (row[ck - 1 := v]) (CStr b)"
        using slot_value_found [OF q(2) f'] q(1) by simp
      have "k' \<noteq> key \<Longrightarrow> slot_value ?fs' year date k' = slot_value fs year date k'"
      proof -
        assume "k' \<noteq> key"
        then have "k' \<notin> fst ` set [(key, JStr x)]" by simp
        from write_row_keeps_slot [OF s(1) this len] sv [of k'] slot_value_found [OF L f, of k']
        show ?thesis by simp
      qed
      moreover have "\<exists>ws'. ledger ?fs' year ws' \<and> header ws' = header ws"
        using q(1,2) by (intro exI [of _ ?ws']) simp
      ultimately show ?thesis using sv [of key] s(2) vx by (simp add: filled_def)
    next
      case None
      let ?row0 = "(blank_row ws)[dc - 1 := CStr date]"
      have len0: "length ?row0 = length (header ws)" by (simp add: blank_row_def)
      note s = write_row_single [OF ck len0 Inr]
      note q = post_append_ledger [OF L ne nd None dc s(1) sd]
      let ?ws' = "ws\<lparr>body := body ws @ [?row0[ck - 1 := v]]\<rparr>"
      have f': "find_row (header ?ws') date 2 (body ?ws')
          = Some (length (body ws) + 2, ?row0[ck - 1 := v])"
        using q(3) [of date] None by simp
      have sv: "\<And>b. slot_value ?fs' year date b = row_data (header ws) (?row0[ck - 1 := v]) (CStr b)"
        using slot_value_found [OF q(2) f'] q(1) by simp
      have other: "k' \<noteq> key \<Longrightarrow> k' \<noteq> ''date'' \<Longrightarrow> \<not> filled ?fs' year date k'"
      proof -
        assume kk: "k' \<noteq> key" and kd': "k' \<noteq> ''date''"
        then have nk: "k' \<notin> fst ` set [(key, JStr x)]" by simp
        have 1: "slot_value ?fs' year date k' = row_data (header ws) ?row0 (CStr k')"
          using write_row_keeps_slot [OF s(1) nk len0] sv [of k'] by simp
        show ?thesis
        proof (cases "header_map (header ws) (CStr k')")
          case None
          with 1 len0 show ?thesis by (simp add: row_data_header_map filled_def)
        next
          case (Some c)
          from header_map_bound [OF Some] have c: "c - 1 < length (header ws)" by auto
          from key_cols_differ [OF Some dc kd'] have "c - 1 \<noteq> dc - 1"
            using header_map_bound [OF Some] by auto
          with c have "?row0 ! (c - 1) = CNone" by (simp add: blank_row_def)
          with 1 Some len0 show ?thesis by (simp add: row_data_header_map filled_def)
        qed
      qed
      have old: "\<not> filled fs year date k'"
        using slot_value_missing [OF L None, of k'] by (simp add: filled_def)
      have "\<exists>ws'. ledger ?fs' year ws' \<and> header ws' = header ws"
        using q(1,2) by (intro exI [of _ ?ws']) simp
      with other old sv [of key] s(2) vx show ?thesis by simp
    qed
  qed
  from all show "\<exists>ws'. ledger ?fs' year ws' \<and> header ws' = header ws" by blast
  from all show "stored_as_given x \<Longrightarrow> slot_value ?fs' year date key = Some (CStr x)" by blast
  from all show "k' \<noteq> key \<Longrightarrow> k' \<noteq> ''date'' \<Longrightarrow>
         filled ?fs' year date k' = filled fs year date k' \<and>
         (filled fs year date k' \<longrightarrow> slot_value ?fs' year date k' = slot_value fs year date k')"
    by blast
qed

section \<open>The script download\_main.py\<close>

lemma year_to_fetch_str: "str_int YEAR_TO_FETCH = ''2026''"
  by code_simp

lemma script_step_posts:
  assumes L: "ledger (service st) (str_int YEAR_TO_FETCH) ws"
    and k: "CStr key \<in> set (header ws)"
    and e: "\<not> filled (service st) (str_int YEAR_TO_FETCH) date key"
  shows "service (script_step key download date st) = script_post key date (download date) (service st)"
proof (cases "find_row (header ws) date 2 (body ws)")
  case None
  from L have sh: "sheets (service st) (str_int YEAR_TO_FETCH) = Some ws" by (simp add: ledger_def)
  from get_missing [OF sh None] show ?thesis
    by (simp add: script_step_def Let_def split: sum.splits)
next
  case (Some p)
  obtain idx row where p: "p = (idx, row)" by (cases p)
  note f = Some [unfolded p]
  from L have dg: "isdigit (str_int YEAR_TO_FETCH)"
    and sh: "sheets (service st) (str_int YEAR_TO_FETCH) = Some ws"
    and hd: "CStr ''date'' \<in> set (header ws)" by (simp_all add: ledger_def)
  from find_row_Some [OF f] have i: "idx - 2 < length (body ws)" "body ws ! (idx - 2) = row"
    by simp_all
  have len: "length row = length (header ws)" using ledger_row_length [OF L i(1)] i(2) by simp
  from hd have hne: "header ws \<noteq> []" by auto
  with len have rne: "row \<noteq> []" by auto
  note g = get_found [OF dg sh f hne rne]
  from k obtain ck where ck: "header_map (header ws) (CStr key) = Some ck"
    using header_map_None [of "header ws" "CStr key"] by auto
  have rd: "row_data (header ws) row (CStr key) = Some (row ! (ck - 1))"
    using ck len by (simp add: row_data_header_map)
  from e slot_value_found [OF L f, of key] rd have nt: "\<not> truthy (row ! (ck - 1))"
    by (simp add: filled_def)
  from rd have "script_lookup (Some (zip (header ws) row)) key = Inr (row ! (ck - 1))"
    by (simp add: script_lookup_def row_data_def)
  with g nt show ?thesis by (simp add: script_step_def Let_def)
qed

section \<open>The client data\_downloader.py\<close>






section \<open>Calendar days\<close>

lemma days_in_month_bounds: "28 \<le> days_in_month y m \<and> days_in_month y m \<le> 31"
  by (simp add: days_in_month_def)

lemma pdate_eqI:
  "d_year a = d_year b \<Longrightarrow> d_month a = d_month b \<Longrightarrow> d_day a = d_day b \<Longrightarrow> (a :: pdate) = b"
  by simp

lemma plus_one_day_cases:
  assumes "valid_date d" and "plus_one_day d = Inr n"
  obtains (day) "d_day d < days_in_month (d_year d) (d_month d)"
      "n = d\<lparr>d_day := d_day d + 1\<rparr>"
    | (month) "d_day d = days_in_month (d_year d) (d_month d)" "d_month d < 12"
      "n = d\<lparr>d_month := d_month d + 1, d_day := 1\<rparr>"
    | (year) "d_day d = days_in_month (d_year d) (d_month d)" "d_month d = 12" "d_year d < 9999"
      "n = \<lparr>d_year = d_year d + 1, d_month = 1, d_day = 1\<rparr>"
proof -
  from assms(1) have v: "d_day d \<le> days_in_month (d_year d) (d_month d)" "d_month d \<le> 12"
    by (simp_all add: valid_date_def)
  show ?thesis
  proof (cases "d_day d < days_in_month (d_year d) (d_month d)")
    case True
    with assms(2) have "n = d\<lparr>d_day := d_day d + 1\<rparr>" by (simp add: plus_one_day_def)
    with True show ?thesis by (rule day)
  next
    case False
    with v have eq: "d_day d = days_in_month (d_year d) (d_month d)" by simp
    show ?thesis
    proof (cases "d_month d < 12")
      case True
      with False assms(2) have "n = d\<lparr>d_month := d_month d + 1, d_day := 1\<rparr>"
        by (simp add: plus_one_day_def)
      with eq True show ?thesis by (rule month)
    next
      case nm: False
      with v have m: "d_month d = 12" by simp
      from False nm assms(2) have y: "d_year d < 9999"
        by (simp add: plus_one_day_def split: if_splits)
      with False nm assms(2) have "n = \<lparr>d_year = d_year d + 1, d_month = 1, d_day = 1\<rparr>"
        by (simp add: plus_one_day_def)
      with eq m y show ?thesis by (rule year)
    qed
  qed
qed

lemma plus_one_day_valid:
  assumes "valid_date d" and "plus_one_day d = Inr n"
  shows "valid_date n \<and> date_lt d n"
proof -
  from assms(1) have v: "1 \<le> d_year d" "d_year d \<le> 9999" "1 \<le> d_month d" "d_month d \<le> 12"
    "1 \<le> d_day d" "d_day d \<le> days_in_month (d_year d) (d_month d)"
    by (simp_all add: valid_date_def)
  from assms show ?thesis
  proof (cases rule: plus_one_day_cases)
    case day
    with v show ?thesis by (simp add: valid_date_def date_lt_def)
  next
    case month
    with v days_in_month_bounds [of "d_year d" "d_month d + 1"] show ?thesis
      by (simp add: valid_date_def date_lt_def)
  next
    case year
    with v days_in_month_bounds [of "d_year d + 1" 1] show ?thesis
      by (simp add: valid_date_def date_lt_def)
  qed
qed

lemma date_lt_trans: "date_lt a b \<Longrightarrow> date_lt b c \<Longrightarrow> date_lt a c"
  unfolding date_lt_def by linarith

lemma date_lt_irrefl: "\<not> date_lt a a"
  by (simp add: date_lt_def)

lemma date_le_trans: "date_le a b \<Longrightarrow> date_le b c \<Longrightarrow> date_le a c"
  unfolding date_le_def using date_lt_trans by blast

lemma date_lt_le_trans: "date_lt a b \<Longrightarrow> date_le b c \<Longrightarrow> date_lt a c"
  unfolding date_le_def using date_lt_trans by blast

lemma date_not_le: "date_le a b \<Longrightarrow> \<not> date_lt b a"
  unfolding date_le_def date_lt_def by auto

lemma date_le_cases: "date_le a b \<or> date_lt b a"
  unfolding date_le_def date_lt_def using pdate_eqI [of a b] by fastforce

lemma plus_one_day_next:
  assumes "valid_date d" and "valid_date e" and "date_lt d e" and "plus_one_day d = Inr n"
  shows "date_le n e"
proof -
  from assms(2) have e: "1 \<le> d_month e" "d_month e \<le> 12" "1 \<le> d_day e"
    "d_day e \<le> days_in_month (d_year e) (d_month e)" by (simp_all add: valid_date_def)
  from assms(1,4) show ?thesis
  proof (cases rule: plus_one_day_cases)
    case day
    show ?thesis
    proof (cases "d_year d = d_year e \<and> d_month d = d_month e \<and> d_day d + 1 = d_day e")
      case True
      then have "n = e" by (intro pdate_eqI) (simp_all add: day(2))
      then show ?thesis by (simp add: date_le_def)
    next
      case False
      with assms(3) have "date_lt n e" unfolding date_lt_def day(2) by auto
      then show ?thesis by (simp add: date_le_def)
    qed
  next
    case month
    show ?thesis
    proof (cases "d_year d = d_year e \<and> d_month d + 1 = d_month e \<and> d_day e = 1")
      case True
      then have "n = e" by (intro pdate_eqI) (simp_all add: month(3))
      then show ?thesis by (simp add: date_le_def)
    next
      case False
      with assms(3) e month(1) have "date_lt n e" unfolding date_lt_def month(3) by auto
      then show ?thesis by (simp add: date_le_def)
    qed
  next
    case year
    show ?thesis
    proof (cases "d_year d + 1 = d_year e \<and> d_month e = 1 \<and> d_day e = 1")
      case True
      then have "n = e" by (intro pdate_eqI) (simp_all add: year(4))
      then show ?thesis by (simp add: date_le_def)
    next
      case False
      have dim: "days_in_month (d_year d) 12 = 31" by (simp add: days_in_month_def)
      from False assms(3) e year(1,2) dim have "date_lt n e"
        unfolding date_lt_def year(4) by auto
      then show ?thesis by (simp add: date_le_def)
    qed
  qed
qed

lemma plus_one_day_overflow:
  assumes "valid_date d" and "plus_one_day d = Inl x"
  shows "d = \<lparr>d_year = 9999, d_month = 12, d_day = 31\<rparr>"
proof -
  from assms(1) have v: "d_year d \<le> 9999" "d_month d \<le> 12"
    "d_day d \<le> days_in_month (d_year d) (d_month d)" by (simp_all add: valid_date_def)
  from assms(2) have n: "\<not> d_day d < days_in_month (d_year d) (d_month d)" "\<not> d_month d < 12"
    "\<not> d_year d < 9999" by (simp_all add: plus_one_day_def split: if_splits)
  from v n have m: "d_month d = 12" and y: "d_year d = 9999" by simp_all
  have "days_in_month (d_year d) 12 = 31" by (simp add: days_in_month_def)
  with v n m have "d_day d = 31" by simp
  with m y show ?thesis by (intro pdate_eqI) simp_all
qed

lemma date_loop_dates:
  assumes "valid_date c" and "valid_date e" and "e \<noteq> \<lparr>d_year = 9999, d_month = 12, d_day = 31\<rparr>"
  shows "\<exists>ds. date_loop c e a = Inr (a @ map strftime ds) \<and> sorted_wrt date_lt ds \<and>
           set ds = {d. valid_date d \<and> date_le c d \<and> date_le d e}"
  using assms
proof (induction c e a rule: date_loop.induct)
  case (1 c e a)
  show ?case
  proof (cases "date_le c e")
    case False
    then have "date_loop c e a = Inr (a @ map strftime [])" by (simp add: date_loop.simps)
    moreover have "{d. valid_date d \<and> date_le c d \<and> date_le d e} = {}"
      using False date_le_trans by blast
    ultimately show ?thesis by (intro exI [of _ "[]"]) simp
  next
    case True
    have "\<exists>n. plus_one_day c = Inr n"
    proof (cases "plus_one_day c")
      case (Inl x)
      from plus_one_day_overflow [OF "1.prems"(1) Inl]
      have c: "c = \<lparr>d_year = 9999, d_month = 12, d_day = 31\<rparr>" .
      from "1.prems"(2) days_in_month_bounds [of "d_year e" "d_month e"]
      have "d_year e \<le> 9999" "d_month e \<le> 12" "d_day e \<le> 31" by (simp_all add: valid_date_def)
      with True c "1.prems"(3) show ?thesis by (auto simp: date_le_def date_lt_def)
    next
      case (Inr n)
      then show ?thesis by blast
    qed
    then obtain n where n: "plus_one_day c = Inr n" ..
    from plus_one_day_valid [OF "1.prems"(1) n] have vn: "valid_date n" and cn: "date_lt c n"
      by simp_all
    from "1.IH" [OF True n vn "1.prems"(2,3)] obtain ds where
      l: "date_loop n e (a @ [strftime c]) = Inr ((a @ [strftime c]) @ map strftime ds)"
      and s: "sorted_wrt date_lt ds"
      and m: "set ds = {d. valid_date d \<and> date_le n d \<and> date_le d e}" by blast
    have 1: "date_loop c e a = Inr (a @ map strftime (c # ds))"
      using True n l by (subst date_loop.simps) simp
    have 2: "sorted_wrt date_lt (c # ds)"
      using s m cn date_lt_le_trans by auto
    have 3: "set (c # ds) = {d. valid_date d \<and> date_le c d \<and> date_le d e}"
    proof (intro set_eqI iffI)
      fix d assume "d \<in> set (c # ds)"
      then consider "d = c" | "d \<in> set ds" by auto
      then show "d \<in> {d. valid_date d \<and> date_le c d \<and> date_le d e}"
      proof cases
        case 1
        with "1.prems"(1) True show ?thesis by (simp add: date_le_def)
      next
        case 2
        with m have "valid_date d" "date_le n d" "date_le d e" by simp_all
        moreover from cn \<open>date_le n d\<close> have "date_le c d"
          using date_lt_le_trans by (auto simp: date_le_def)
        ultimately show ?thesis by simp
      qed
    next
      fix d assume "d \<in> {d. valid_date d \<and> date_le c d \<and> date_le d e}"
      then have d: "valid_date d" "date_le c d" "date_le d e" by simp_all
      show "d \<in> set (c # ds)"
      proof (cases "d = c")
        case True
        then show ?thesis by simp
      next
        case False
        with d(2) have "date_lt c d" by (simp add: date_le_def)
        from plus_one_day_next [OF "1.prems"(1) d(1) this n] d m show ?thesis by simp
      qed
    qed
    from 1 2 3 show ?thesis by blast
  qed
qed

lemma minus_one_day_yesterday:
  assumes "valid_date t" and "2 \<le> d_year t"
  shows "\<exists>y. minus_one_day t = Inr y \<and> valid_date y \<and> plus_one_day y = Inr t"
proof -
  from assms(1) have v: "d_year t \<le> 9999" "1 \<le> d_month t" "d_month t \<le> 12"
    "1 \<le> d_day t" "d_day t \<le> days_in_month (d_year t) (d_month t)"
    by (simp_all add: valid_date_def)
  consider (day) "1 < d_day t" | (month) "d_day t = 1" "1 < d_month t"
    | (year) "d_day t = 1" "d_month t = 1"
    using v by linarith
  then show ?thesis
  proof cases
    case day
    let ?y = "t\<lparr>d_day := d_day t - 1\<rparr>"
    have "minus_one_day t = Inr ?y" using day by (simp add: minus_one_day_def)
    moreover have "valid_date ?y" using day v assms(2) by (simp add: valid_date_def)
    moreover have "plus_one_day ?y = Inr t" using v by (simp add: plus_one_day_def)
    ultimately show ?thesis by blast
  next
    case month
    let ?y = "t\<lparr>d_month := d_month t - 1, d_day := days_in_month (d_year t) (d_month t - 1)\<rparr>"
    have "minus_one_day t = Inr ?y" using month by (simp add: minus_one_day_def)
    moreover have "valid_date ?y"
      using month v assms(2) days_in_month_bounds [of "d_year t" "d_month t - 1"]
      by (simp add: valid_date_def)
    moreover have "plus_one_day ?y = Inr t"
      using month v by (simp add: plus_one_day_def)
    ultimately show ?thesis by blast
  next
    case year
    let ?y = "\<lparr>d_year = d_year t - 1, d_month = 12, d_day = 31\<rparr>"
    have dim: "days_in_month (d_year t - 1) 12 = 31" by (simp add: days_in_month_def)
    have "minus_one_day t = Inr ?y" using year assms(2) by (simp add: minus_one_day_def)
    moreover have "valid_date ?y" using v assms(2) dim by (simp add: valid_date_def)
    moreover have "plus_one_day ?y = Inr t"
      using year v assms(2) dim by (simp add: plus_one_day_def)
    ultimately show ?thesis by blast
  qed
qed

section \<open>The format of a date\<close>

lemma is_digit_digit_char: "k < 10 \<Longrightarrow> is_digit (digit_char k)"
  by (simp add: is_digit_def digit_char_def)

lemma str_nat_digits: "list_all is_digit (str_nat n)"
proof (induction n rule: str_nat.induct)
  case (1 n)
  show ?case
  proof (cases "n < 10")
    case True
    then show ?thesis by (subst str_nat.simps) (simp add: is_digit_digit_char)
  next
    case False
    with 1 show ?thesis by (subst str_nat.simps) (simp add: is_digit_digit_char)
  qed
qed

lemma str_nat_length_1: "n < 10 \<Longrightarrow> length (str_nat n) = 1"
  by (subst str_nat.simps) simp

lemma str_nat_length_2: "n < 100 \<Longrightarrow> length (str_nat n) \<le> 2"
  by (subst str_nat.simps) (simp add: str_nat_length_1)

lemma str_nat_length_two: "10 \<le> n \<Longrightarrow> n < 100 \<Longrightarrow> length (str_nat n) = 2"
  by (subst str_nat.simps) (simp add: str_nat_length_1)

lemma str_nat_length_three: "100 \<le> n \<Longrightarrow> n < 1000 \<Longrightarrow> length (str_nat n) = 3"
  using str_nat_length_two [of "n div 10"] by (subst str_nat.simps) simp

lemma str_nat_length_four: "1000 \<le> n \<Longrightarrow> n < 10000 \<Longrightarrow> length (str_nat n) = 4"
  using str_nat_length_three [of "n div 10"] by (subst str_nat.simps) simp

lemma str_nat_length_le_four:
  assumes "n < 10000"
  shows "length (str_nat n) \<le> 4"
proof -
  consider "n < 10" | "10 \<le> n" "n < 100" | "100 \<le> n" "n < 1000" | "1000 \<le> n"
    by linarith
  then show ?thesis
    using assms
    by cases (simp_all add: str_nat_length_1 str_nat_length_two str_nat_length_three
        str_nat_length_four)
qed

lemma zfill_digits:
  "length s \<le> w \<Longrightarrow> list_all is_digit s \<Longrightarrow>
   length (zfill w s) = w \<and> list_all is_digit (zfill w s)"
  by (auto simp: zfill_def is_digit_def list_all_iff)

lemma iso_shape_parts:
  assumes "length a = 4" "length b = 2" "length c = 2"
    and "list_all is_digit a" "list_all is_digit b" "list_all is_digit c"
  shows "iso_shape (a @ ''-'' @ b @ ''-'' @ c)"
  using assms by (simp add: iso_shape_def nth_append)

lemma strftime_shape:
  assumes "valid_date d" and "1000 \<le> d_year d"
  shows "iso_shape (strftime d)"
proof -
  from assms days_in_month_bounds [of "d_year d" "d_month d"]
  have "1000 \<le> nat (d_year d)" "nat (d_year d) < 10000" "nat (d_month d) < 100"
    "nat (d_day d) < 100"
    unfolding valid_date_def by linarith+
  then have "length (str_nat (nat (d_year d))) = 4" "length (str_nat (nat (d_month d))) \<le> 2"
    "length (str_nat (nat (d_day d))) \<le> 2"
    by (simp_all add: str_nat_length_four str_nat_length_2)
  then show ?thesis
    unfolding strftime_def
    by (intro iso_shape_parts) (simp_all add: zfill_digits str_nat_digits)
qed

lemma strftime_stored:
  assumes "valid_date d"
  shows "stored_as_given (strftime d)"
proof -
  from assms days_in_month_bounds [of "d_year d" "d_month d"]
  have "nat (d_year d) < 10000" "nat (d_month d) < 100" "nat (d_day d) < 100"
    unfolding valid_date_def by linarith+
  then have l: "length (str_nat (nat (d_year d))) \<le> 4" "length (str_nat (nat (d_month d))) \<le> 2"
    "length (str_nat (nat (d_day d))) \<le> 2"
    by (simp_all add: str_nat_length_le_four str_nat_length_2)
  have dg: "\<And>c. is_digit c \<Longrightarrow> (of_char c :: nat) = 9 \<or> (of_char c :: nat) = 10 \<or>
      (32 \<le> (of_char c :: nat) \<and> (of_char c :: nat) < 128)"
    by (simp add: is_digit_def)
  have "list_all is_digit (str_nat (nat (d_year d)))"
    "list_all is_digit (zfill 2 (str_nat (nat (d_month d))))"
    "list_all is_digit (zfill 2 (str_nat (nat (d_day d))))"
    using l by (simp_all add: zfill_digits str_nat_digits)
  moreover have "length (zfill 2 (str_nat (nat (d_month d)))) = 2"
    "length (zfill 2 (str_nat (nat (d_day d)))) = 2"
    using l by (simp_all add: zfill_digits str_nat_digits)
  ultimately show ?thesis
    using l(1) dg unfolding stored_as_given_def strftime_def
    by (auto simp: list_all_iff)
qed

lemma example_strings_stored:
  "stored_as_given ''2026-01-01''" "stored_as_given ''2026-01-02''" "stored_as_given ''None''"
  "stored_as_given ''b.csv''" "stored_as_given ''c.csv''" "stored_as_given ''fo.csv''"
  by code_simp+

section \<open>Creating the year folder and the ledger\<close>

text \<open>
  C8, as the code has it. \<^verbatim>\<open>create_year_folder\<close> tests \<^verbatim>\<open>year.isdigit()\<close> and
  nothing else: an ASCII year that is not a non-empty string of the digits
  0 to 9 is answered with status 400 and nothing is created. The length of
  the string is not looked at.
\<close>

theorem create_year_folder_rejects_non_digits:
  "ascii year \<Longrightarrow> \<not> isdigit year \<Longrightarrow> create_year_folder year fs = (400, fs)"
  by (simp add: create_year_folder_def)

theorem create_year_folder_rejects_non_digits_witness:
  "ascii ''20x4'' \<and> \<not> isdigit ''20x4'' \<and>
   create_year_folder ''20x4'' \<lparr>folders = {}, sheets = Map.empty\<rparr>
     = (400, \<lparr>folders = {}, sheets = Map.empty\<rparr>)"
proof -
  have a: "ascii ''20x4''" by (simp add: ascii_def)
  have h: "\<not> isdigit ''20x4''" by (simp add: isdigit_def is_digit_def)
  from a h create_year_folder_rejects_non_digits [OF a h] show ?thesis by simp
qed

text \<open>
  C8 as stated fails: a string of five digits is not a four-digit year, yet
  the folder is created and the answer is 201.
\<close>

theorem create_year_folder_accepts_five_digits:
  "create_year_folder ''20245'' \<lparr>folders = {}, sheets = Map.empty\<rparr>
     = (201, \<lparr>folders = {''20245''}, sheets = Map.empty\<rparr>)"
  by (simp add: create_year_folder_def isdigit_def is_digit_def)



section \<open>Updating the status of a date\<close>

text \<open>
  C1. On a ledger, for a date string that a cell stores as it is given (as
  the calendar dates are), a POST whose payload names slots (it has no
  \<^verbatim>\<open>date\<close> key) is idempotent: sending it a second time for the same date
  leaves the whole store, and so the row, as the first time left it. This
  holds for a date that had a row and for a date whose row the first call
  appends, for a payload with one slot or with several, and for values the
  sheet stores, rewrites or refuses.
\<close>

theorem update_status_idempotent:
  assumes L: "ledger fs year ws" and nd: "''date'' \<notin> fst ` set updates"
    and sd: "stored_as_given date"
  shows "snd (manage_tracking_by_date year date (Post updates)
                (snd (manage_tracking_by_date year date (Post updates) fs)))
         = snd (manage_tracking_by_date year date (Post updates) fs)"
proof (cases "updates = []")
  case True
  with post_empty [of year date fs] show ?thesis by auto
next
  case ne: False
  from L have dg: "isdigit year" and sh: "sheets fs year = Some ws" by (simp_all add: ledger_def)
  from ledger_date_col [OF L] obtain dc where dc: "header_map (header ws) (CStr ''date'') = Some dc" ..
  let ?hm = "header_map (header ws)"
  show ?thesis
  proof (cases "find_row (header ws) date 2 (body ws)")
    case None
    let ?row0 = "(blank_row ws)[dc - 1 := CStr date]"
    show ?thesis
    proof (cases "write_row ?hm updates ?row0")
      case (Inl e)
      with post_append [OF dg sh None ne dc sd] show ?thesis by simp
    next
      case (Inr row')
      let ?ws' = "ws\<lparr>body := body ws @ [row']\<rparr>"
      let ?fs' = "fs\<lparr>sheets := (sheets fs)(year \<mapsto> ?ws')\<rparr>"
      note a = post_append_ledger [OF L ne nd None dc Inr sd]
      have f': "find_row (header ?ws') date 2 (body ?ws') = Some (length (body ws) + 2, row')"
        using a(3) [of date] None by simp
      have w': "write_row (header_map (header ?ws')) updates row' = Inr row'"
        using write_row_idem [OF Inr] by simp
      have nd': "''date'' \<notin> fst ` set updates" by (rule nd)
      note b = post_update_ledger [OF a(2) ne nd' f' w']
      have "?ws'\<lparr>body := (body ?ws')[length (body ws) + 2 - 2 := row']\<rparr> = ?ws'"
        by simp
      with b(1) have "snd (manage_tracking_by_date year date (Post updates) ?fs') = ?fs'"
        by (simp add: fun_upd_idem)
      with a(1) show ?thesis by simp
    qed
  next
    case (Some p)
    obtain idx row where p: "p = (idx, row)" by (cases p)
    note f = Some [unfolded p]
    show ?thesis
    proof (cases "write_row ?hm updates row")
      case (Inl e)
      with post_update [OF dg sh f ne] show ?thesis by simp
    next
      case (Inr row')
      let ?ws' = "ws\<lparr>body := (body ws)[idx - 2 := row']\<rparr>"
      let ?fs' = "fs\<lparr>sheets := (sheets fs)(year \<mapsto> ?ws')\<rparr>"
      note a = post_update_ledger [OF L ne nd f Inr]
      have f': "find_row (header ?ws') date 2 (body ?ws') = Some (idx, row')"
        using a(3) [of date] f by simp
      have w': "write_row (header_map (header ?ws')) updates row' = Inr row'"
        using write_row_idem [OF Inr] by simp
      note b = post_update_ledger [OF a(2) ne nd f' w']
      have "?ws'\<lparr>body := (body ?ws')[idx - 2 := row']\<rparr> = ?ws'"
        by simp
      with b(1) have "snd (manage_tracking_by_date year date (Post updates) ?fs') = ?fs'"
        by (simp add: fun_upd_idem)
      with a(1) show ?thesis by simp
    qed
  qed
qed

theorem update_status_idempotent_witness:
  "ledger example_store ''2026'' example_sheet \<and>
   ''date'' \<notin> fst ` set [(''file_2'', JStr ''b.csv'')] \<and>
   stored_as_given ''2026-01-01'' \<and>
   snd (manage_tracking_by_date ''2026'' ''2026-01-01'' (Post [(''file_2'', JStr ''b.csv'')])
          (snd (manage_tracking_by_date ''2026'' ''2026-01-01'' (Post [(''file_2'', JStr ''b.csv'')])
             example_store)))
     = snd (manage_tracking_by_date ''2026'' ''2026-01-01'' (Post [(''file_2'', JStr ''b.csv'')])
          example_store)"
proof -
  have nd: "''date'' \<notin> fst ` set [(''file_2'', JStr ''b.csv'')]" by simp
  note sd = example_strings_stored(1)
  from update_status_idempotent [OF example_ledger nd sd] example_ledger nd sd
  show ?thesis by blast
qed

text \<open>
  C2. On a ledger, for a date that has a row: a POST leaves every slot that
  its payload does not name as it was (the payload is any non-empty one
  without a \<^verbatim>\<open>date\<close> key, whether the request succeeds or not), and a POST
  of \<^verbatim>\<open>{a: x}\<close> for a column \<open>a\<close> of the header and a string \<open>x\<close> that a
  cell stores as it is given answers 200 and makes \<open>x\<close> the value of \<open>a\<close>.
  The payload says nothing of the other slots.
\<close>

theorem partial_update_preserves_other_slots:
  assumes L: "ledger fs year ws"
    and f: "find_row (header ws) date 2 (body ws) = Some (idx, row)"
    and ne: "updates \<noteq> []" and nd: "''date'' \<notin> fst ` set updates"
    and nb: "b \<notin> fst ` set updates"
    and a: "CStr a \<in> set (header ws)" and ad: "a \<noteq> ''date''"
    and sx: "stored_as_given x"
  shows "slot_value (snd (manage_tracking_by_date year date (Post updates) fs)) year date b
           = slot_value fs year date b \<and>
         fst (manage_tracking_by_date year date (Post [(a, JStr x)]) fs) = (200, None) \<and>
         slot_value (snd (manage_tracking_by_date year date (Post [(a, JStr x)]) fs)) year date a
           = Some (CStr x)"
proof -
  from L have dg: "isdigit year" and sh: "sheets fs year = Some ws" by (simp_all add: ledger_def)
  from find_row_Some [OF f] have i: "idx - 2 < length (body ws)" "body ws ! (idx - 2) = row"
    by simp_all
  have len: "length row = length (header ws)" using ledger_row_length [OF L i(1)] i(2) by simp
  have frame: "slot_value (snd (manage_tracking_by_date year date (Post updates) fs)) year date b
           = slot_value fs year date b"
  proof (cases "write_row (header_map (header ws)) updates row")
    case (Inl e)
    with post_update [OF dg sh f ne] show ?thesis by simp
  next
    case (Inr row')
    note p = post_update_ledger [OF L ne nd f Inr]
    have "find_row (header (ws\<lparr>body := (body ws)[idx - 2 := row']\<rparr>)) date 2
        (body (ws\<lparr>body := (body ws)[idx - 2 := row']\<rparr>)) = Some (idx, row')"
      using p(3) [of date] f by simp
    from slot_value_found [OF p(2) this] p(1) slot_value_found [OF L f]
      write_row_keeps_slot [OF Inr nb len]
    show ?thesis by simp
  qed
  from a obtain ca where ca: "header_map (header ws) (CStr a) = Some ca"
    using header_map_None [of "header ws" "CStr a"] by auto
  note s = write_row_single [OF ca len set_value_stored [OF sx]]
  have ne1: "[(a, JStr x)] \<noteq> []" by simp
  have nd1: "''date'' \<notin> fst ` set [(a, JStr x)]" using ad by simp
  note q = post_update_ledger [OF L ne1 nd1 f s(1)]
  have "find_row (header (ws\<lparr>body := (body ws)[idx - 2 := row[ca - 1 := CStr x]]\<rparr>)) date 2
      (body (ws\<lparr>body := (body ws)[idx - 2 := row[ca - 1 := CStr x]]\<rparr>))
        = Some (idx, row[ca - 1 := CStr x])"
    using q(3) [of date] f by simp
  from slot_value_found [OF q(2) this] q(1) s(2) frame show ?thesis by simp
qed

theorem partial_update_preserves_other_slots_witness:
  "ledger example_store ''2026'' example_sheet \<and>
   find_row (header example_sheet) ''2026-01-01'' 2 (body example_sheet)
     = Some (2, [CStr ''2026-01-01'', CStr ''a.csv'', CNone, CNone, CNone, CNone, CNone, CNone,
                 CNone, CNone, CNone, CNone]) \<and>
   CStr ''file_2'' \<in> set (header example_sheet) \<and>
   slot_value (snd (manage_tracking_by_date ''2026'' ''2026-01-01''
                 (Post [(''file_2'', JStr ''b.csv'')]) example_store)) ''2026'' ''2026-01-01'' ''file_1''
     = Some (CStr ''a.csv'') \<and>
   slot_value (snd (manage_tracking_by_date ''2026'' ''2026-01-01''
                 (Post [(''file_2'', JStr ''b.csv'')]) example_store)) ''2026'' ''2026-01-01'' ''file_2''
     = Some (CStr ''b.csv'')"
proof -
  have f: "find_row (header example_sheet) ''2026-01-01'' 2 (body example_sheet)
     = Some (2, [CStr ''2026-01-01'', CStr ''a.csv'', CNone, CNone, CNone, CNone, CNone, CNone,
                 CNone, CNone, CNone, CNone])"
    by code_simp
  have ne: "[(''file_2'', JStr ''b.csv'')] \<noteq> []" by simp
  have nd: "''date'' \<notin> fst ` set [(''file_2'', JStr ''b.csv'')]" by simp
  have nb: "''file_1'' \<notin> fst ` set [(''file_2'', JStr ''b.csv'')]" by simp
  have a: "CStr ''file_2'' \<in> set (header example_sheet)"
    by (simp add: example_sheet_def headers_eq)
  have ad: "''file_2'' \<noteq> ''date''" by simp
  have old: "slot_value example_store ''2026'' ''2026-01-01'' ''file_1'' = Some (CStr ''a.csv'')"
    by code_simp
  from partial_update_preserves_other_slots [OF example_ledger f ne nd nb a ad
      example_strings_stored(4)]
    example_ledger f a old
  show ?thesis by simp
qed

text \<open>
  C10. A payload key that is no column of the header is skipped: the writes
  of a payload are the writes of its keys that are columns of the header.
  On a ledger, a non-empty payload of which no key is a column is answered
  without error: with 200 and the store unchanged when the date has a row,
  and with 201 and one more row, empty but for the date, when it has none
  and the date string is one that a cell stores as it is given.
\<close>

theorem unknown_keys_ignored:
  assumes L: "ledger fs year ws" and ne: "updates \<noteq> []"
    and un: "\<forall>k \<in> fst ` set updates. CStr k \<notin> set (header ws)"
  shows "write_updates (header_map (header ws)) r us ws0 =
           write_updates (header_map (header ws)) r
             (filter (\<lambda>(k, v). CStr k \<in> set (header ws)) us) ws0 \<and>
         (case find_row (header ws) date 2 (body ws) of
            Some (idx, row) \<Rightarrow>
              manage_tracking_by_date year date (Post updates) fs = ((200, None), fs)
          | None \<Rightarrow>
              stored_as_given date \<longrightarrow>
              (\<exists>dc. header_map (header ws) (CStr ''date'') = Some dc \<and>
                 manage_tracking_by_date year date (Post updates) fs =
                   ((201, None),
                    fs\<lparr>sheets := (sheets fs)(year \<mapsto>
                          ws\<lparr>body := body ws @ [(blank_row ws)[dc - 1 := CStr date]]\<rparr>)\<rparr>)))"
proof -
  from L have dg: "isdigit year" and sh: "sheets fs year = Some ws" by (simp_all add: ledger_def)
  have none: "\<And>k. k \<in> fst ` set updates \<Longrightarrow> header_map (header ws) (CStr k) = None"
    using un by (auto simp: header_map_None)
  have w: "\<And>row. write_row (header_map (header ws)) updates row = Inr row"
    by (rule write_row_unknown [of updates "header_map (header ws)"]) (rule none)
  have "case find_row (header ws) date 2 (body ws) of
            Some (idx, row) \<Rightarrow>
              manage_tracking_by_date year date (Post updates) fs = ((200, None), fs)
          | None \<Rightarrow>
              stored_as_given date \<longrightarrow>
              (\<exists>dc. header_map (header ws) (CStr ''date'') = Some dc \<and>
                 manage_tracking_by_date year date (Post updates) fs =
                   ((201, None),
                    fs\<lparr>sheets := (sheets fs)(year \<mapsto>
                          ws\<lparr>body := body ws @ [(blank_row ws)[dc - 1 := CStr date]]\<rparr>)\<rparr>))"
  proof (cases "find_row (header ws) date 2 (body ws)")
    case None
    from ledger_date_col [OF L] obtain dc where dc: "header_map (header ws) (CStr ''date'') = Some dc" ..
    show ?thesis
    proof (cases "stored_as_given date")
      case True
      from post_append [OF dg sh None ne dc True] w dc None show ?thesis by simp
    next
      case False
      with None show ?thesis by simp
    qed
  next
    case (Some p)
    obtain idx row where p: "p = (idx, row)" by (cases p)
    from find_row_Some [OF Some [unfolded p]] have "body ws ! (idx - 2) = row" by simp
    then have "(body ws)[idx - 2 := row] = body ws" by (metis list_update_id)
    then have "ws\<lparr>body := (body ws)[idx - 2 := row]\<rparr> = ws" by simp
    with post_update [OF dg sh Some [unfolded p] ne] w sh Some p show ?thesis
      by (simp add: fun_upd_idem)
  qed
  with write_updates_filter show ?thesis by blast
qed

theorem unknown_keys_ignored_witness:
  "ledger example_store ''2026'' example_sheet \<and>
   manage_tracking_by_date ''2026'' ''2026-01-01'' (Post [(''file_99'', JStr ''x'')]) example_store
     = ((200, None), example_store) \<and>
   fst (manage_tracking_by_date ''2026'' ''2026-01-02'' (Post [(''file_99'', JStr ''x'')])
          example_store) = (201, None) \<and>
   sheets (snd (manage_tracking_by_date ''2026'' ''2026-01-02'' (Post [(''file_99'', JStr ''x'')])
          example_store)) ''2026''
     = Some (example_sheet\<lparr>body := body example_sheet @
          [[CStr ''2026-01-02'', CNone, CNone, CNone, CNone, CNone, CNone, CNone, CNone, CNone,
            CNone, CNone]]\<rparr>)"
proof -
  have ne: "[(''file_99'', JStr ''x'')] \<noteq> []" by simp
  have un: "\<forall>k \<in> fst ` set [(''file_99'', JStr ''x'')]. CStr k \<notin> set (header example_sheet)"
    by (simp add: example_sheet_def headers_eq)
  have f1: "find_row (header example_sheet) ''2026-01-01'' 2 (body example_sheet)
     = Some (2, [CStr ''2026-01-01'', CStr ''a.csv'', CNone, CNone, CNone, CNone, CNone, CNone,
                 CNone, CNone, CNone, CNone])"
    by code_simp
  have f2: "find_row (header example_sheet) ''2026-01-02'' 2 (body example_sheet) = None"
    by code_simp
  have dc: "header_map (header example_sheet) (CStr ''date'') = Some 1"
    by code_simp
  have b: "(blank_row example_sheet)[1 - 1 := CStr ''2026-01-02'']
     = [CStr ''2026-01-02'', CNone, CNone, CNone, CNone, CNone, CNone, CNone, CNone, CNone,
            CNone, CNone]"
    by code_simp
  from unknown_keys_ignored [OF example_ledger ne un, of _ _ _ "''2026-01-01''"] f1
  have 1: "manage_tracking_by_date ''2026'' ''2026-01-01'' (Post [(''file_99'', JStr ''x'')])
      example_store = ((200, None), example_store)" by simp
  from unknown_keys_ignored [OF example_ledger ne un, of _ _ _ "''2026-01-02''"] f2 dc b
    example_strings_stored(2)
  have 2: "manage_tracking_by_date ''2026'' ''2026-01-02'' (Post [(''file_99'', JStr ''x'')])
      example_store = ((201, None), example_store\<lparr>sheets := (sheets example_store)(''2026'' \<mapsto>
          example_sheet\<lparr>body := body example_sheet @
          [[CStr ''2026-01-02'', CNone, CNone, CNone, CNone, CNone, CNone, CNone, CNone, CNone,
            CNone, CNone]]\<rparr>)\<rparr>)" by auto
  from 1 2 example_ledger show ?thesis by simp
qed

text \<open>
  C3, as the code has it. The service writes whatever value it is sent, so
  what keeps a filled slot filled is the payload: a POST whose values are
  all true for Python (or are not written at all) leaves every row of every
  ledger in place, and every cell that held a true value still holds one.
  \<^verbatim>\<open>process_date\<close> only posts non-empty strings, so a pass of it over a date,
  whatever the downloaders return, empties no cell either.
\<close>

theorem filled_slot_stays_filled:
  assumes "sheets fs y = Some ws" and "list_all (\<lambda>(k, v). not_emptying v) updates"
  shows "(\<exists>ws'. sheets (snd (manage_tracking_by_date year date (Post updates) fs)) y = Some ws' \<and>
            keeps_filled ws ws') \<and>
         (\<exists>ws'. sheets (fst (process_date yr download d fs)) y = Some ws' \<and> keeps_filled ws ws')"
  using post_keeps [OF assms(2,1)] run_tasks_keeps [OF assms(1)]
  by (simp add: process_date_def)

theorem filled_slot_stays_filled_witness:
  "sheets example_store ''2026'' = Some example_sheet \<and>
   list_all (\<lambda>(k, v). not_emptying v) [(''file_1'', JStr ''b.csv'')] \<and>
   (\<exists>ws'. sheets (snd (manage_tracking_by_date ''2026'' ''2026-01-01''
              (Post [(''file_1'', JStr ''b.csv'')]) example_store)) ''2026'' = Some ws' \<and>
            keeps_filled example_sheet ws') \<and>
   (\<exists>ws'. sheets (fst (process_date 2026 (\<lambda>k d. None) ''2026-01-01'' example_store)) ''2026''
              = Some ws' \<and> keeps_filled example_sheet ws')"
proof -
  have s: "sheets example_store ''2026'' = Some example_sheet" by (simp add: example_store_def)
  have u: "list_all (\<lambda>(k, v). not_emptying v) [(''file_1'', JStr ''b.csv'')]" by simp
  from filled_slot_stays_filled [OF s u] s u show ?thesis by blast
qed

text \<open>
  C3 as stated fails: the service does not guard a filled slot. A POST of an
  empty string for it is answered with 200 and the slot is empty afterwards.
\<close>

theorem empty_string_overwrites_filled_slot:
  "filled example_store ''2026'' ''2026-01-01'' ''file_1'' \<and>
   fst (manage_tracking_by_date ''2026'' ''2026-01-01'' (Post [(''file_1'', JStr [])])
          example_store) = (200, None) \<and>
   \<not> filled (snd (manage_tracking_by_date ''2026'' ''2026-01-01'' (Post [(''file_1'', JStr [])])
          example_store)) ''2026'' ''2026-01-01'' ''file_1''"
  by code_simp

text \<open>
  C4, as the code has it. On a ledger, calls of \<^verbatim>\<open>UpdateStatus\<close> for date
  strings that a cell stores as it is given (as the calendar dates are) and
  with payloads without a \<^verbatim>\<open>date\<close> key keep the ledger a ledger with the same header
  and the same rows in the same places, leave the date cell of every row
  that existed as it was, and keep the date strings distinct when they were.
\<close>

theorem date_cells_immutable:
  assumes "ledger fs year ws"
    and "list_all (\<lambda>(date, updates). stored_as_given date \<and> ''date'' \<notin> fst ` set updates) calls"
  shows "\<exists>ws'. ledger (update_status_seq year calls fs) year ws' \<and>
     header ws' = header ws \<and> length (body ws) \<le> length (body ws') \<and>
     take (length (body ws)) (date_column ws') = date_column ws \<and>
     (distinct (date_strings ws) \<longrightarrow> distinct (date_strings ws'))"
  using assms
proof (induction calls arbitrary: fs ws)
  case Nil
  then show ?case by (intro exI [of _ ws]) (simp add: date_column_def)
next
  case (Cons call calls)
  obtain date us where call: "call = (date, us)" by (cases call)
  from Cons.prems(2) have nd: "''date'' \<notin> fst ` set us" and sd: "stored_as_given date"
    and rest: "list_all (\<lambda>(date, updates). stored_as_given date \<and> ''date'' \<notin> fst ` set updates) calls"
    by (simp_all add: call)
  from post_keeps_dates [OF Cons.prems(1) nd sd] obtain ws1 where
    1: "ledger (snd (manage_tracking_by_date year date (Post us) fs)) year ws1"
      "header ws1 = header ws" "length (body ws) \<le> length (body ws1)"
      "take (length (body ws)) (date_column ws1) = date_column ws"
      "distinct (date_strings ws) \<longrightarrow> distinct (date_strings ws1)" by blast
  from Cons.IH [OF 1(1) rest] obtain ws' where
    2: "ledger (update_status_seq year calls (snd (manage_tracking_by_date year date (Post us) fs)))
          year ws'"
      "header ws' = header ws1" "length (body ws1) \<le> length (body ws')"
      "take (length (body ws1)) (date_column ws') = date_column ws1"
      "distinct (date_strings ws1) \<longrightarrow> distinct (date_strings ws')" by blast
  have "take (length (body ws)) (date_column ws')
      = take (length (body ws)) (take (length (body ws1)) (date_column ws'))"
    using 1(3) by (simp add: min_def)
  with 1(4) 2(4) have "take (length (body ws)) (date_column ws') = date_column ws" by simp
  with 1 2 show ?case by (auto simp: call)
qed

theorem date_cells_immutable_witness:
  "ledger example_store ''2026'' example_sheet \<and>
   list_all (\<lambda>(date, updates). stored_as_given date \<and> ''date'' \<notin> fst ` set updates)
     [(''2026-01-01'', [(''file_1'', JStr ''b.csv'')]), (''2026-01-02'', [(''file_2'', JStr ''c.csv'')])] \<and>
   distinct (date_strings example_sheet) \<and>
   (\<exists>ws'. ledger (update_status_seq ''2026''
        [(''2026-01-01'', [(''file_1'', JStr ''b.csv'')]), (''2026-01-02'', [(''file_2'', JStr ''c.csv'')])]
        example_store) ''2026'' ws' \<and>
     take (length (body example_sheet)) (date_column ws') = date_column example_sheet \<and>
     distinct (date_strings ws'))"
proof -
  have c: "list_all (\<lambda>(date, updates). stored_as_given date \<and> ''date'' \<notin> fst ` set updates)
     [(''2026-01-01'', [(''file_1'', JStr ''b.csv'')]), (''2026-01-02'', [(''file_2'', JStr ''c.csv'')])]"
    using example_strings_stored(1,2) by simp
  have d: "distinct (date_strings example_sheet)" by code_simp
  from date_cells_immutable [OF example_ledger c] example_ledger c d show ?thesis by blast
qed

text \<open>
  C4 as stated fails: \<^verbatim>\<open>date\<close> is a column of the header like any other, so a
  payload with a \<^verbatim>\<open>date\<close> key overwrites the date cell of the row.
\<close>

theorem date_key_overwrites_date_cell:
  "fst (manage_tracking_by_date ''2026'' ''2026-01-01'' (Post [(''date'', JStr ''2026-01-02'')])
          example_store) = (200, None) \<and>
   date_column example_sheet = [Some (CStr ''2026-01-01'')] \<and>
   map_option date_column (sheets (snd (manage_tracking_by_date ''2026'' ''2026-01-01''
          (Post [(''date'', JStr ''2026-01-02'')]) example_store)) ''2026'')
     = Some [Some (CStr ''2026-01-02'')]"
  by code_simp

section \<open>The drivers and a failed download\<close>

text \<open>
  C6. In the script \<^verbatim>\<open>download_main.py\<close>, on the ledger of the year it is
  configured for and for a date string that a cell stores as it is given (as
  the calendar dates are): when the slot of a date is not filled (the date has no row,
  or the slot of its row is empty) and the downloader returns \<^verbatim>\<open>None\<close>, the
  iteration still posts the slot, with the string \<^verbatim>\<open>"None"\<close> that the
  f-string makes of the result. The slot then holds that string and reads as
  filled.
\<close>

theorem failed_download_writes_placeholder:
  assumes L: "ledger (service st) (str_int YEAR_TO_FETCH) ws"
    and k: "CStr key \<in> set (header ws)" and kd: "key \<noteq> ''date''"
    and e: "\<not> filled (service st) (str_int YEAR_TO_FETCH) date key"
    and n: "download date = None" and sd: "stored_as_given date"
  shows "service (script_step key download date st)
           = snd (manage_tracking_by_date (str_int YEAR_TO_FETCH) date (Post [(key, JStr ''None'')])
                (service st)) \<and>
         slot_value (service (script_step key download date st)) (str_int YEAR_TO_FETCH) date key
           = Some (CStr ''None'') \<and>
         filled (service (script_step key download date st)) (str_int YEAR_TO_FETCH) date key"
  using script_step_posts [OF L k e, of download] n
    post_single(2) [OF L k kd sd example_strings_stored(3)]
  by (simp add: script_post_def filled_def)

theorem failed_download_writes_placeholder_witness:
  "ledger example_store (str_int YEAR_TO_FETCH) example_sheet \<and>
   CStr ''file_2'' \<in> set (header example_sheet) \<and>
   \<not> filled example_store (str_int YEAR_TO_FETCH) ''2026-01-01'' ''file_2'' \<and>
   slot_value (service (script_step ''file_2'' (\<lambda>d. None) ''2026-01-01''
       \<lparr>service = example_store, data = None, crashed = None\<rparr>)) (str_int YEAR_TO_FETCH)
       ''2026-01-01'' ''file_2'' = Some (CStr ''None'') \<and>
   filled (service (script_step ''file_2'' (\<lambda>d. None) ''2026-01-01''
       \<lparr>service = example_store, data = None, crashed = None\<rparr>)) (str_int YEAR_TO_FETCH)
       ''2026-01-01'' ''file_2''"
proof -
  have L0: "ledger example_store (str_int YEAR_TO_FETCH) example_sheet"
    using example_ledger by (simp add: year_to_fetch_str)
  then have L: "ledger (service \<lparr>service = example_store, data = None, crashed = None\<rparr>)
      (str_int YEAR_TO_FETCH) example_sheet" by simp
  have k: "CStr ''file_2'' \<in> set (header example_sheet)"
    by (simp add: example_sheet_def headers_eq)
  have kd: "''file_2'' \<noteq> ''date''" by simp
  have "\<not> filled example_store ''2026'' ''2026-01-01'' ''file_2''" by code_simp
  then have e0: "\<not> filled example_store (str_int YEAR_TO_FETCH) ''2026-01-01'' ''file_2''"
    by (simp add: year_to_fetch_str)
  then have e: "\<not> filled (service \<lparr>service = example_store, data = None, crashed = None\<rparr>)
      (str_int YEAR_TO_FETCH) ''2026-01-01'' ''file_2''" by simp
  have n: "(\<lambda>d. None :: string option) ''2026-01-01'' = None" by simp
  from failed_download_writes_placeholder [OF L k kd e n example_strings_stored(1)] L0 k e0
  show ?thesis by blast
qed



section \<open>The calendar of a year\<close>

text \<open>
  C5. For a year from 1001 to 9998 and any date of today, \<^verbatim>\<open>get_year_dates\<close>
  succeeds. The range starts on October 1 of the year before; it ends on
  December 31 of the year when the year is not the year of today, and on the
  day before today (the calendar date whose next day is today) when it is. The dates
  returned are the strings of the calendar dates from the start to the end,
  both included, each of them once and in ascending order, and each string
  has the shape \<^verbatim>\<open>YYYY-MM-DD\<close>. For the year of today, today is not among
  them.
\<close>

theorem calendar_boundaries:
  assumes t: "valid_date today" and lo: "1001 \<le> year" and hi: "year \<le> 9998"
  shows "\<exists>ds end_date.
     valid_date end_date \<and>
     (if year = d_year today then plus_one_day end_date = Inr today
      else end_date = \<lparr>d_year = year, d_month = 12, d_day = 31\<rparr>) \<and>
     get_year_dates today year =
       Inr \<lparr>requested_year = year, is_current_year = (year = d_year today),
            range_start = strftime \<lparr>d_year = year - 1, d_month = 10, d_day = 1\<rparr>,
            range_end = strftime end_date, total_days = length ds, dates = map strftime ds\<rparr> \<and>
     sorted_wrt date_lt ds \<and>
     set ds = {d. valid_date d \<and> date_le \<lparr>d_year = year - 1, d_month = 10, d_day = 1\<rparr> d \<and>
                 date_le d end_date} \<and>
     (year = d_year today \<longrightarrow> today \<notin> set ds) \<and>
     list_all iso_shape (map strftime ds)"
proof -
  let ?start = "\<lparr>d_year = year - 1, d_month = 10, d_day = 1\<rparr>"
  let ?max = "\<lparr>d_year = 9999, d_month = 12, d_day = 31\<rparr>"
  have vs: "valid_date ?start" using lo hi by (simp add: valid_date_def days_in_month_def)
  then have ms: "mk_date (year - 1) 10 1 = Inr ?start" by (simp add: mk_date_def)
  have "\<exists>e. (if year = d_year today then minus_one_day today else mk_date year 12 31) = Inr e \<and>
      valid_date e \<and> e \<noteq> ?max \<and>
      (if year = d_year today then plus_one_day e = Inr today
       else e = \<lparr>d_year = year, d_month = 12, d_day = 31\<rparr>)"
  proof (cases "year = d_year today")
    case True
    with lo have "2 \<le> d_year today" by simp
    from minus_one_day_yesterday [OF t this] obtain y where
      y: "minus_one_day today = Inr y" "valid_date y" "plus_one_day y = Inr today" by blast
    have "y \<noteq> ?max"
    proof
      assume "y = ?max"
      then have "plus_one_day y = Inl OverflowError"
        by (simp add: plus_one_day_def days_in_month_def)
      with y(3) show False by simp
    qed
    with y True show ?thesis by simp
  next
    case False
    have "valid_date \<lparr>d_year = year, d_month = 12, d_day = 31\<rparr>"
      using lo hi by (simp add: valid_date_def days_in_month_def)
    with False hi show ?thesis by (simp add: mk_date_def)
  qed
  then obtain e where
    e: "(if year = d_year today then minus_one_day today else mk_date year 12 31) = Inr e"
    and ve: "valid_date e" and ne: "e \<noteq> ?max"
    and ee: "if year = d_year today then plus_one_day e = Inr today
       else e = \<lparr>d_year = year, d_month = 12, d_day = 31\<rparr>" by blast
  from date_loop_dates [OF vs ve ne, of "[]"] obtain ds where
    l: "date_loop ?start e [] = Inr (map strftime ds)" and s: "sorted_wrt date_lt ds"
    and m: "set ds = {d. valid_date d \<and> date_le ?start d \<and> date_le d e}" by auto
  have g: "get_year_dates today year =
       Inr \<lparr>requested_year = year, is_current_year = (year = d_year today),
            range_start = strftime ?start, range_end = strftime e,
            total_days = length ds, dates = map strftime ds\<rparr>"
    using ms e l by (simp add: get_year_dates_def)
  have n: "year = d_year today \<longrightarrow> today \<notin> set ds"
  proof
    assume "year = d_year today"
    with ee have "plus_one_day e = Inr today" by simp
    from plus_one_day_valid [OF ve this] have "date_lt e today" by simp
    with m date_not_le [of today e] show "today \<notin> set ds" by auto
  qed
  have "iso_shape (strftime d)" if "d \<in> set ds" for d
  proof -
    from that m have v: "valid_date d" and le: "date_le ?start d" by simp_all
    from le lo have "1000 \<le> d_year d" by (auto simp: date_le_def date_lt_def)
    with v show ?thesis by (rule strftime_shape)
  qed
  then have f: "list_all iso_shape (map strftime ds)" by (simp add: list_all_iff)
  from ve ee g s m n f show ?thesis by blast
qed

theorem calendar_boundaries_witness:
  "valid_date \<lparr>d_year = 2026, d_month = 11, d_day = 4\<rparr> \<and>
   minus_one_day \<lparr>d_year = 2026, d_month = 11, d_day = 4\<rparr>
     = Inr \<lparr>d_year = 2026, d_month = 11, d_day = 3\<rparr> \<and>
   strftime \<lparr>d_year = 2026, d_month = 11, d_day = 3\<rparr> = ''2026-11-03'' \<and>
   (\<exists>ds end_date.
      valid_date end_date \<and>
      plus_one_day end_date = Inr \<lparr>d_year = 2026, d_month = 11, d_day = 4\<rparr> \<and>
      get_year_dates \<lparr>d_year = 2026, d_month = 11, d_day = 4\<rparr> 2026 =
        Inr \<lparr>requested_year = 2026, is_current_year = True,
             range_start = ''2025-10-01'', range_end = strftime end_date,
             total_days = length ds, dates = map strftime ds\<rparr> \<and>
      sorted_wrt date_lt ds \<and>
      \<lparr>d_year = 2026, d_month = 11, d_day = 4\<rparr> \<notin> set ds)"
proof -
  have v: "valid_date \<lparr>d_year = 2026, d_month = 11, d_day = 4\<rparr>" by code_simp
  have lo: "(1001::int) \<le> 2026" and hi: "(2026::int) \<le> 9998" by simp_all
  have st: "strftime \<lparr>d_year = 2026 - 1, d_month = 10, d_day = 1\<rparr> = ''2025-10-01''" by code_simp
  have y: "minus_one_day \<lparr>d_year = 2026, d_month = 11, d_day = 4\<rparr>
     = Inr \<lparr>d_year = 2026, d_month = 11, d_day = 3\<rparr>" by code_simp
  have sy: "strftime \<lparr>d_year = 2026, d_month = 11, d_day = 3\<rparr> = ''2026-11-03''" by code_simp
  from calendar_boundaries [OF v lo hi] obtain ds end_date where
    "valid_date end_date"
    "plus_one_day end_date = Inr \<lparr>d_year = 2026, d_month = 11, d_day = 4\<rparr>"
    "get_year_dates \<lparr>d_year = 2026, d_month = 11, d_day = 4\<rparr> 2026 =
        Inr \<lparr>requested_year = 2026, is_current_year = True,
             range_start = strftime \<lparr>d_year = 2026 - 1, d_month = 10, d_day = 1\<rparr>,
             range_end = strftime end_date,
             total_days = length ds, dates = map strftime ds\<rparr>"
    "sorted_wrt date_lt ds" "\<lparr>d_year = 2026, d_month = 11, d_day = 4\<rparr> \<notin> set ds"
    by auto
  with v y sy show ?thesis unfolding st by blast
qed

end
